theory Spec2Isabelle
  imports Main "HOL-Library.Word" "HOL-Library.Multiset"
begin

section \<open>Basic types\<close>

text \<open>
  Go's \<open>byte\<close> is an 8-bit word and \<open>[]byte\<close> a list of them. A \<open>common.Hash\<close> is the
  32-byte output of Keccak-256; the hash function belongs to the \<open>crypto\<close> package, so
  every definition that hashes takes it as the parameter \<open>kec\<close>. \<open>uint64\<close> is a 64-bit word.
\<close>

type_synonym byte = "8 word"
type_synonym bytes = "byte list"
type_synonym hash = "byte list"
type_synonym uint64 = "64 word"

text \<open>
  A run-time panic of the Go program is an error value: an explicit \<open>panic(...)\<close> with its
  message, an index or slice expression out of range, the dereference of a nil pointer,
  and a failure reported by the RLP decoder (which the callers here turn into a panic or
  return as \<open>error\<close>).
\<close>

datatype rlp_error =
    ErrUnexpectedEOF
  | ErrExpectedString
  | ErrExpectedList
  | ErrCanonInt
  | ErrCanonSize
  | ErrUintOverflow
  | ErrValueTooLarge
  | ErrElemTooLarge
  | ErrMoreThanOneValue
  | ErrTooFewElements
  | ErrTooManyElements
  | ErrWrongArrayLength

datatype error =
    Panic string
  | IndexOutOfRange
  | SliceBoundsOutOfRange
  | NilPointerDereference
  | DecodeError rlp_error

section \<open>Key and type scheme (core/state/state\_type.go)\<close>

record StateType =
  Prefix :: byte

definition AccountState :: StateType where
  "AccountState = \<lparr>Prefix = 0x61\<rparr>"

definition PodState :: StateType where
  "PodState = \<lparr>Prefix = 0x70\<rparr>"

definition stateTypeFromPrefix :: "byte \<Rightarrow> error + StateType" where
  "stateTypeFromPrefix prefix =
     (if prefix = 0x61 then Inr AccountState
      else if prefix = 0x70 then Inr PodState
      else Inl (Panic ''unknown state type''))"

definition PreKey :: "StateType \<Rightarrow> bytes \<Rightarrow> bytes" where
  "PreKey st key = [Prefix st] @ key"

definition Value :: "StateType \<Rightarrow> bytes \<Rightarrow> bytes" where
  "Value st v = [Prefix st] @ v"

text \<open>
  Modelled from the spec: the package \<open>common\<close> (\<open>Address\<close>, \<open>BytesToAddress\<close>) is not among
  the sources. The specification makes an address a fixed-length account identifier;
  \<open>common.Address\<close> is the array type \<open>[20]byte\<close>, so an address is a byte list of length
  \<open>AddressLength\<close> and \<open>Bytes\<close> of an address is that list. \<open>BytesToAddress\<close> copies a slice
  into the array as go-ethereum does: a slice longer than the array is cropped from the
  left, a shorter one is right-aligned in a zeroed array.
\<close>

type_synonym address = "byte list"

definition AddressLength :: nat where
  "AddressLength = 20"

definition is_address :: "address \<Rightarrow> bool" where
  "is_address a = (length a = AddressLength)"

definition BytesToAddress :: "bytes \<Rightarrow> address" where
  "BytesToAddress b =
     (let b' = (if length b > AddressLength then drop (length b - AddressLength) b else b)
      in replicate (AddressLength - length b') 0 @ b')"

text \<open>
  \<open>math/big\<close>: a \<open>*big.Int\<close> is \<open>None\<close> when the pointer is nil and \<open>Some\<close> of an
  unbounded integer otherwise. \<open>Bytes\<close> returns the absolute value as a big-endian byte
  slice without leading zero bytes (empty for zero); \<open>SetBytes\<close> reads a slice as a
  big-endian unsigned integer.
\<close>

function nat_bytes :: "nat \<Rightarrow> bytes" where
  "nat_bytes n = (if n = 0 then [] else nat_bytes (n div 256) @ [of_nat (n mod 256)])"
  by pat_completeness auto
termination
  by (relation "measure id") auto

definition big_Bytes :: "int \<Rightarrow> bytes" where
  "big_Bytes x = nat_bytes (nat \<bar>x\<bar>)"

definition bytes_nat :: "bytes \<Rightarrow> nat" where
  "bytes_nat bs = foldl (\<lambda>acc b. acc * 256 + unat b) 0 bs"

definition big_SetBytes :: "bytes \<Rightarrow> int" where
  "big_SetBytes bs = int (bytes_nat bs)"

definition accountKey :: "address \<Rightarrow> bytes" where
  "accountKey addr = PreKey AccountState addr"

text \<open>\<open>key[1:]\<close> panics on an empty slice.\<close>

definition keyToAddress :: "bytes \<Rightarrow> error + address" where
  "keyToAddress key =
     (case key of [] \<Rightarrow> Inl SliceBoundsOutOfRange | _ # rest \<Rightarrow> Inr (BytesToAddress rest))"

definition podKey :: "int option \<Rightarrow> error + bytes" where
  "podKey block =
     (case block of None \<Rightarrow> Inl NilPointerDereference
      | Some b \<Rightarrow> Inr (PreKey PodState (big_Bytes b)))"

definition keyToBlock :: "bytes \<Rightarrow> error + int" where
  "keyToBlock key =
     (case key of [] \<Rightarrow> Inl SliceBoundsOutOfRange | _ # rest \<Rightarrow> Inr (big_SetBytes rest))"

section \<open>State objects (core/state/state\_object.go)\<close>

definition accountKeyHash :: "(bytes \<Rightarrow> hash) \<Rightarrow> address \<Rightarrow> hash" where
  "accountKeyHash kec addr = kec (accountKey addr)"

definition podKeyHash :: "(bytes \<Rightarrow> hash) \<Rightarrow> int option \<Rightarrow> error + hash" where
  "podKeyHash kec block = (case podKey block of Inl e \<Rightarrow> Inl e | Inr k \<Rightarrow> Inr (kec k))"

section \<open>Pods (core/types/state\_pod.go and the pod object)\<close>

record StatePod =
  GasLimit :: uint64
  CurrentGasLimit :: uint64
  Passengers :: "address list"

text \<open>
  The pod object. \<open>block\<close> is a \<open>*big.Int\<close> and may be nil; \<open>db\<close> is the pointer to the
  owning state database, of which the object only keeps the reference, so its type is a
  parameter; \<open>dbErr\<close> is nil (\<open>None\<close>) in a new object.
\<close>

record 'db podObject =
  block :: "int option"
  podHash :: hash
  data :: StatePod
  db :: 'db
  dbErr :: "error option"
  executed :: bool
  deleted :: bool

definition newPodObject ::
  "(bytes \<Rightarrow> hash) \<Rightarrow> 'db \<Rightarrow> int option \<Rightarrow> StatePod \<Rightarrow> error + 'db podObject" where
  "newPodObject kec sdb blk d =
     (let d' = (if GasLimit d = 0 then d\<lparr>GasLimit := 1000000\<rparr> else d)
      in case podKeyHash kec blk of
           Inl e \<Rightarrow> Inl e
         | Inr h \<Rightarrow> Inr \<lparr>block = blk, podHash = h, data = d', db = sdb, dbErr = None,
                        executed = False, deleted = False\<rparr>)"

definition pod_Type :: "'db podObject \<Rightarrow> StateType" where
  "pod_Type o' = PodState"

definition pod_Key :: "'db podObject \<Rightarrow> error + bytes" where
  "pod_Key o' = podKey (block o')"

definition pod_KeyHash :: "'db podObject \<Rightarrow> hash" where
  "pod_KeyHash o' = podHash o'"

text \<open>
  \<open>DeepCopy\<close> returns the nil interface value: the body is a \<open>TODO\<close> followed by
  \<open>return nil\<close>. The result type is an optional object, \<open>None\<close> for nil.
\<close>

definition pod_DeepCopy :: "'db podObject \<Rightarrow> 'db \<Rightarrow> 'db podObject option" where
  "pod_DeepCopy o' sdb = None"

definition pod_Empty :: "'db podObject \<Rightarrow> bool" where
  "pod_Empty o' = (block o' = None \<and> GasLimit (data o') = 0)"

definition pod_Suicided :: "'db podObject \<Rightarrow> bool" where
  "pod_Suicided o' = executed o'"

definition pod_Deleted :: "'db podObject \<Rightarrow> bool" where
  "pod_Deleted o' = deleted o'"

definition pod_MarkDeleted :: "'db podObject \<Rightarrow> 'db podObject" where
  "pod_MarkDeleted o' = o'\<lparr>deleted := True\<rparr>"

section \<open>Journal (core/state/journal.go)\<close>

text \<open>
  The values of the interface type \<open>journalEntry\<close>: the nil interface value (the zero
  value of a slot of the entries' array) and one constructor per entry type with its
  fields in the order of the source. A pointer field (\<open>*common.Address\<close>, \<open>*big.Int\<close>,
  \<open>*common.Hash\<close>) is an option, \<open>None\<close> for nil. \<open>resetObjectChange\<close> holds a state object
  (an interface value), whose type is the parameter \<open>'obj\<close>.
\<close>

datatype 'obj journalEntry =
    nilEntry
  | createObjectChange bytes
  | resetObjectChange 'obj bool
  | suicideChange "address option" bool "int option"
  | balanceChange "address option" "int option"
  | nonceChange "address option" uint64
  | storageChange "address option" hash hash
  | codeChange "address option" bytes bytes
  | refundChange uint64
  | addLogChange hash
  | addPreimageChange hash
  | touchChange "address option"
  | accessListAddAccountChange "address option"
  | accessListAddSlotChange "address option" "hash option"

text \<open>
  \<open>dirtied\<close> of an entry that names an account dereferences the account pointer and
  returns the address of the account key hash (never nil). A method call on the nil
  interface value panics.
\<close>

definition dirtied_account :: "(bytes \<Rightarrow> hash) \<Rightarrow> address option \<Rightarrow> error + hash option" where
  "dirtied_account kec account =
     (case account of None \<Rightarrow> Inl NilPointerDereference
      | Some a \<Rightarrow> Inr (Some (accountKeyHash kec a)))"

text \<open>
  \<open>createObjectChange.dirtied\<close> reads \<open>ch.key[0]\<close> (a panic on an empty key), looks the
  state type up and hashes the key rebuilt from \<open>ch.key[1:]\<close>; in the pod branch
  \<open>keyToBlock\<close> is applied to \<open>ch.key[1:]\<close> and drops one more byte itself.
\<close>

fun dirtied :: "(bytes \<Rightarrow> hash) \<Rightarrow> 'obj journalEntry \<Rightarrow> error + hash option" where
  "dirtied kec nilEntry = Inl NilPointerDereference"
| "dirtied kec (createObjectChange key) =
     (case key of
        [] \<Rightarrow> Inl IndexOutOfRange
      | p # rest \<Rightarrow>
          (case stateTypeFromPrefix p of
             Inl e \<Rightarrow> Inl e
           | Inr stateType \<Rightarrow>
               if stateType = AccountState then
                 Inr (Some (accountKeyHash kec (BytesToAddress rest)))
               else if stateType = PodState then
                 (case keyToBlock rest of
                    Inl e \<Rightarrow> Inl e
                  | Inr blk \<Rightarrow>
                      (case podKeyHash kec (Some blk) of
                         Inl e \<Rightarrow> Inl e
                       | Inr keyHash \<Rightarrow> Inr (Some keyHash)))
               else Inr None))"
| "dirtied kec (resetObjectChange prev prevdestruct) = Inr None"
| "dirtied kec (suicideChange account prev prevbalance) = dirtied_account kec account"
| "dirtied kec (touchChange account) = dirtied_account kec account"
| "dirtied kec (balanceChange account prev) = dirtied_account kec account"
| "dirtied kec (nonceChange account prev) = dirtied_account kec account"
| "dirtied kec (codeChange account prevcode prevhash) = dirtied_account kec account"
| "dirtied kec (storageChange account key prevalue) = dirtied_account kec account"
| "dirtied kec (refundChange prev) = Inr None"
| "dirtied kec (addLogChange txhash) = Inr None"
| "dirtied kec (addPreimageChange h) = Inr None"
| "dirtied kec (accessListAddAccountChange a) = Inr None"
| "dirtied kec (accessListAddSlotChange a slot) = Inr None"

text \<open>
  The journal: the entries and the map from key hashes to change counts. \<open>j.entries\<close> is
  a slice: \<open>entries\<close> are its elements (its length is theirs) and \<open>spare\<close> are the slots of
  its array behind them, up to the capacity. A re-slice \<open>j.entries[:n]\<close> moves the
  boundary between the two and keeps what the slots hold. \<open>m[k]\<close> on a Go map reads the
  zero value for an absent key; the counts are Go \<open>int\<close>s, modelled as unbounded integers
  (a count cannot reach \<open>2^63\<close> entries).
\<close>

record 'obj journal =
  entries :: "'obj journalEntry list"
  spare :: "'obj journalEntry list"
  dirties :: "hash \<rightharpoonup> int"

definition map_get :: "(hash \<rightharpoonup> int) \<Rightarrow> hash \<Rightarrow> int" where
  "map_get m k = (case m k of None \<Rightarrow> 0 | Some n \<Rightarrow> n)"

definition newJournal :: "'obj journal" where
  "newJournal = \<lparr>entries = [], spare = [], dirties = Map.empty\<rparr>"

text \<open>\<open>j.dirties[*keyHash]++\<close>\<close>

definition dirties_incr :: "(hash \<rightharpoonup> int) \<Rightarrow> hash \<Rightarrow> (hash \<rightharpoonup> int)" where
  "dirties_incr m k = m(k \<mapsto> map_get m k + 1)"

text \<open>
  \<open>if j.dirties[*keyHash]--; j.dirties[*keyHash] == 0 { delete(j.dirties, *keyHash) }\<close>
\<close>

definition dirties_decr :: "(hash \<rightharpoonup> int) \<Rightarrow> hash \<Rightarrow> (hash \<rightharpoonup> int)" where
  "dirties_decr m k =
     (let m' = m(k \<mapsto> map_get m k - 1)
      in if map_get m' k = 0 then m'(k := None) else m')"

text \<open>
  \<open>append(j.entries, entry)\<close> writes the entry into the first spare slot. When there is
  none the runtime moves the elements to a new array, whose capacity it chooses: the
  parameter \<open>grow\<close> gives the new capacity for a full slice of a given length (at least
  one more than the length, whatever \<open>grow\<close> says); the slots behind the new element
  hold the zero value.
\<close>

definition journal_append ::
  "(bytes \<Rightarrow> hash) \<Rightarrow> (nat \<Rightarrow> nat) \<Rightarrow> 'obj journal \<Rightarrow> 'obj journalEntry \<Rightarrow>
   error + 'obj journal" where
  "journal_append kec grow j entry =
     (let j' = (case spare j of
                  [] \<Rightarrow> j\<lparr>entries := entries j @ [entry],
                            spare := replicate (grow (length (entries j)) - Suc (length (entries j)))
                                       nilEntry\<rparr>
                | _ # rest \<Rightarrow> j\<lparr>entries := entries j @ [entry], spare := rest\<rparr>)
      in case dirtied kec entry of
           Inl e \<Rightarrow> Inl e
         | Inr None \<Rightarrow> Inr j'
         | Inr (Some keyHash) \<Rightarrow> Inr (j'\<lparr>dirties := dirties_incr (dirties j') keyHash\<rparr>))"

text \<open>
  The loop of \<open>revert\<close>, from index \<open>i\<close> down to \<open>snapshot\<close>. The state database is not
  among the sources: what an entry's \<open>revert\<close> does to it is the parameter \<open>rv\<close>, which
  may panic; the database \<open>sdb\<close> stands for everything of the \<open>StateDB\<close> but its journal.
  \<open>j.entries[i]\<close> panics when \<open>i\<close> is negative or not below the length, and the method
  call \<open>j.entries[i].revert(statedb)\<close> panics on the nil interface value.
\<close>

definition entry_revert ::
  "('obj journalEntry \<Rightarrow> 'db \<Rightarrow> error + 'db) \<Rightarrow> 'obj journalEntry \<Rightarrow> 'db \<Rightarrow> error + 'db" where
  "entry_revert rv entry sdb =
     (if entry = nilEntry then Inl NilPointerDereference else rv entry sdb)"

function revert_loop ::
  "(bytes \<Rightarrow> hash) \<Rightarrow> ('obj journalEntry \<Rightarrow> 'db \<Rightarrow> error + 'db) \<Rightarrow> 'obj journalEntry list \<Rightarrow>
   'db \<Rightarrow> (hash \<rightharpoonup> int) \<Rightarrow> int \<Rightarrow> int \<Rightarrow> error + ('db \<times> (hash \<rightharpoonup> int))" where
  "revert_loop kec rv es sdb d i snapshot =
     (if i \<ge> snapshot then
        (if i < 0 \<or> int (length es) \<le> i then Inl IndexOutOfRange
         else
           (case entry_revert rv (es ! nat i) sdb of
              Inl e \<Rightarrow> Inl e
            | Inr sdb' \<Rightarrow>
                (case dirtied kec (es ! nat i) of
                   Inl e \<Rightarrow> Inl e
                 | Inr None \<Rightarrow> revert_loop kec rv es sdb' d (i - 1) snapshot
                 | Inr (Some keyHash) \<Rightarrow>
                     revert_loop kec rv es sdb' (dirties_decr d keyHash) (i - 1) snapshot)))
      else Inr (sdb, d))"
  by pat_completeness auto
termination
  by (relation "measure (\<lambda>(kec, rv, es, sdb, d, i, snapshot). nat (i + 1 - snapshot))") auto

text \<open>
  \<open>revert\<close>: the loop from the last index, then \<open>j.entries = j.entries[:snapshot]\<close>. The
  slice expression panics for a negative bound and for a bound above the capacity. A
  bound up to the length drops the elements behind it into the spare slots; a bound
  between the length and the capacity brings spare slots back as elements.
\<close>

definition journal_revert ::
  "(bytes \<Rightarrow> hash) \<Rightarrow> ('obj journalEntry \<Rightarrow> 'db \<Rightarrow> error + 'db) \<Rightarrow> 'db \<Rightarrow> 'obj journal \<Rightarrow> int \<Rightarrow>
   error + ('db \<times> 'obj journal)" where
  "journal_revert kec rv sdb j snapshot =
     (case revert_loop kec rv (entries j) sdb (dirties j) (int (length (entries j)) - 1) snapshot of
        Inl e \<Rightarrow> Inl e
      | Inr (sdb', d') \<Rightarrow>
          if snapshot < 0 \<or> int (length (entries j) + length (spare j)) < snapshot
          then Inl SliceBoundsOutOfRange
          else Inr (sdb', \<lparr>entries = take (nat snapshot) (entries j @ spare j),
                           spare = drop (nat snapshot) (entries j @ spare j),
                           dirties = d'\<rparr>))"

definition journal_dirty :: "'obj journal \<Rightarrow> hash \<Rightarrow> 'obj journal" where
  "journal_dirty j keyHash = j\<lparr>dirties := dirties_incr (dirties j) keyHash\<rparr>"

definition journal_length :: "'obj journal \<Rightarrow> int" where
  "journal_length j = int (length (entries j))"

text \<open>A sequence of journal operations, run from left to right; a panic ends the run.\<close>

datatype 'obj journal_op =
    Append "'obj journalEntry"
  | Revert int
  | Dirty hash

fun run_op ::
  "(bytes \<Rightarrow> hash) \<Rightarrow> ('obj journalEntry \<Rightarrow> 'db \<Rightarrow> error + 'db) \<Rightarrow> (nat \<Rightarrow> nat) \<Rightarrow>
   'obj journal_op \<Rightarrow> 'db \<times> 'obj journal \<Rightarrow> error + ('db \<times> 'obj journal)" where
  "run_op kec rv grow (Append entry) (sdb, j) =
     (case journal_append kec grow j entry of Inl e \<Rightarrow> Inl e | Inr j' \<Rightarrow> Inr (sdb, j'))"
| "run_op kec rv grow (Revert snapshot) (sdb, j) = journal_revert kec rv sdb j snapshot"
| "run_op kec rv grow (Dirty keyHash) (sdb, j) = Inr (sdb, journal_dirty j keyHash)"

fun run_ops ::
  "(bytes \<Rightarrow> hash) \<Rightarrow> ('obj journalEntry \<Rightarrow> 'db \<Rightarrow> error + 'db) \<Rightarrow> (nat \<Rightarrow> nat) \<Rightarrow>
   'obj journal_op list \<Rightarrow> 'db \<times> 'obj journal \<Rightarrow> error + ('db \<times> 'obj journal)" where
  "run_ops kec rv grow [] s = Inr s"
| "run_ops kec rv grow (x # xs) s =
     (case run_op kec rv grow x s of Inl e \<Rightarrow> Inl e | Inr s' \<Rightarrow> run_ops kec rv grow xs s')"

text \<open>
  A sequence of operations keeps to the checkpoints when every \<open>revert\<close> in it is given a
  checkpoint that is not above the length the journal has at that moment.
\<close>

definition checkpoint_ok :: "'obj journal_op \<Rightarrow> 'obj journal \<Rightarrow> bool" where
  "checkpoint_ok x j =
     (case x of Revert snapshot \<Rightarrow> snapshot \<le> journal_length j | _ \<Rightarrow> True)"

fun checkpoints_ok ::
  "(bytes \<Rightarrow> hash) \<Rightarrow> ('obj journalEntry \<Rightarrow> 'db \<Rightarrow> error + 'db) \<Rightarrow> (nat \<Rightarrow> nat) \<Rightarrow>
   'obj journal_op list \<Rightarrow> 'db \<times> 'obj journal \<Rightarrow> bool" where
  "checkpoints_ok kec rv grow [] s = True"
| "checkpoints_ok kec rv grow (x # xs) s =
     (checkpoint_ok x (snd s) \<and>
      (case run_op kec rv grow x s of
         Inl e \<Rightarrow> True
       | Inr s' \<Rightarrow> checkpoints_ok kec rv grow xs s'))"

text \<open>
  The multiset of the non-nil \<open>dirtied()\<close> results over a list of entries, the hashes
  passed to \<open>dirty\<close> in a sequence of operations, and a multiset of hashes seen as a
  count map: a hash that does not occur has no slot.
\<close>

definition dirtied_hashes :: "(bytes \<Rightarrow> hash) \<Rightarrow> 'obj journalEntry list \<Rightarrow> hash list" where
  "dirtied_hashes kec es =
     concat (map (\<lambda>e. case dirtied kec e of Inr (Some h) \<Rightarrow> [h] | _ \<Rightarrow> []) es)"

definition dirtied_mset :: "(bytes \<Rightarrow> hash) \<Rightarrow> 'obj journalEntry list \<Rightarrow> hash multiset" where
  "dirtied_mset kec es = mset (dirtied_hashes kec es)"

fun dirty_calls :: "'obj journal_op list \<Rightarrow> hash list" where
  "dirty_calls [] = []"
| "dirty_calls (Dirty h # xs) = h # dirty_calls xs"
| "dirty_calls (_ # xs) = dirty_calls xs"

definition count_map :: "hash multiset \<Rightarrow> (hash \<rightharpoonup> int)" where
  "count_map M = (\<lambda>h. if count M h = 0 then None else Some (int (count M h)))"

text \<open>
  The loop of \<open>revert\<close> as the specification words it: the entries above the checkpoint,
  last one first, each undone on the database and then taken off the dirty counts. It
  is proved equal to \<open>revert_loop\<close> below (\<open>revert_loop_undo\<close>).
\<close>

fun undo_entries ::
  "(bytes \<Rightarrow> hash) \<Rightarrow> ('obj journalEntry \<Rightarrow> 'db \<Rightarrow> error + 'db) \<Rightarrow> 'obj journalEntry list \<Rightarrow>
   'db \<Rightarrow> (hash \<rightharpoonup> int) \<Rightarrow> error + ('db \<times> (hash \<rightharpoonup> int))" where
  "undo_entries kec rv [] sdb d = Inr (sdb, d)"
| "undo_entries kec rv (e # es) sdb d =
     (case entry_revert rv e sdb of
        Inl x \<Rightarrow> Inl x
      | Inr sdb' \<Rightarrow>
          (case dirtied kec e of
             Inl x \<Rightarrow> Inl x
           | Inr None \<Rightarrow> undo_entries kec rv es sdb' d
           | Inr (Some keyHash) \<Rightarrow> undo_entries kec rv es sdb' (dirties_decr d keyHash)))"

section \<open>RLP encoding of pods (core/types/gen\_pod\_rlp.go, core/state/snapshot/pod.go)\<close>

text \<open>
  Modelled from the spec: the \<open>rlp\<close> package (\<open>EncodeToBytes\<close>, \<open>DecodeBytes\<close>, the encoder
  buffer) is not among the sources. The specification fixes the wire schema of a pod as
  a list of the unsigned 64-bit \<open>GasLimit\<close>, the unsigned 64-bit \<open>CurrentGasLimit\<close> and the
  list of the passengers' byte strings, in that order, in the canonical (RLP) encoding;
  the definitions below are that encoding: an integer is its minimal big-endian bytes
  as a string (a single byte below 0x80 stands for itself, zero is the empty string),
  a string or list of less than 56 bytes has a one-byte header and a longer one a
  header followed by the minimal big-endian bytes of its length.
\<close>

definition rlp_head :: "nat \<Rightarrow> nat \<Rightarrow> nat \<Rightarrow> bytes" where
  "rlp_head smalltag largetag sz =
     (if sz < 56 then [of_nat (smalltag + sz)]
      else (let s = nat_bytes sz in of_nat (largetag + length s) # s))"

definition WriteUint64 :: "uint64 \<Rightarrow> bytes" where
  "WriteUint64 i =
     (if i = 0 then [0x80]
      else if i < 128 then [ucast i]
      else (let s = nat_bytes (unat i) in of_nat (0x80 + length s) # s))"

definition WriteBytes :: "bytes \<Rightarrow> bytes" where
  "WriteBytes b =
     (case b of
        [x] \<Rightarrow> if x \<le> 0x7F then [x] else rlp_head 0x80 0xB7 1 @ b
      | _ \<Rightarrow> rlp_head 0x80 0xB7 (length b) @ b)"

definition WriteList :: "bytes \<Rightarrow> bytes" where
  "WriteList payload = rlp_head 0xC0 0xF7 (length payload) @ payload"

text \<open>
  The generated encoder of \<open>StatePod\<close>: the outer list of the two integers and the inner
  list of the passengers, each written as a byte string.
\<close>

definition StatePod_EncodeRLP :: "StatePod \<Rightarrow> bytes" where
  "StatePod_EncodeRLP obj =
     WriteList (WriteUint64 (GasLimit obj) @ WriteUint64 (CurrentGasLimit obj) @
                WriteList (concat (map WriteBytes (Passengers obj))))"

text \<open>
  The slim pod of the snapshot layer: the passengers are raw byte strings. Its fields
  carry the prefix \<open>slim\<close> to keep them apart from those of \<open>StatePod\<close>. Encoding a \<open>Pod\<close>
  by reflection writes the same three fields in the same way.
\<close>

record Pod =
  slim_GasLimit :: uint64
  slim_CurrentGasLimit :: uint64
  slim_Passengers :: "bytes list"

definition Pod_EncodeRLP :: "Pod \<Rightarrow> bytes" where
  "Pod_EncodeRLP obj =
     WriteList (WriteUint64 (slim_GasLimit obj) @ WriteUint64 (slim_CurrentGasLimit obj) @
                WriteList (concat (map WriteBytes (slim_Passengers obj))))"

text \<open>
  Decoding. One item is split off the front of the input: a single byte, a string or a
  list with its content, and the rest of the input. A length that is not minimal (a
  leading zero byte, or a long form for less than 56 bytes) and a content longer than
  the input are errors.
\<close>

datatype rlp_item = RByte byte | RString bytes | RList bytes

definition rlp_content :: "(bytes \<Rightarrow> rlp_item) \<Rightarrow> nat \<Rightarrow> bytes \<Rightarrow> rlp_error + (rlp_item \<times> bytes)" where
  "rlp_content mk sz rest =
     (if length rest < sz then Inl ErrValueTooLarge
      else Inr (mk (take sz rest), drop sz rest))"

definition rlp_readUint :: "nat \<Rightarrow> bytes \<Rightarrow> rlp_error + (nat \<times> bytes)" where
  "rlp_readUint k rest =
     (if length rest < k then Inl ErrUnexpectedEOF
      else (case take k rest of
              [] \<Rightarrow> Inr (0, rest)
            | z # _ \<Rightarrow> if z = 0 then Inl ErrCanonSize
                       else Inr (bytes_nat (take k rest), drop k rest)))"

definition rlp_long ::
  "(bytes \<Rightarrow> rlp_item) \<Rightarrow> nat \<Rightarrow> bytes \<Rightarrow> rlp_error + (rlp_item \<times> bytes)" where
  "rlp_long mk k rest =
     (case rlp_readUint k rest of
        Inl e \<Rightarrow> Inl e
      | Inr (sz, rest') \<Rightarrow> if sz < 56 then Inl ErrCanonSize else rlp_content mk sz rest')"

definition rlp_split :: "bytes \<Rightarrow> rlp_error + (rlp_item \<times> bytes)" where
  "rlp_split input =
     (case input of
        [] \<Rightarrow> Inl ErrUnexpectedEOF
      | b # rest \<Rightarrow>
          (let n = unat b in
           if n < 0x80 then Inr (RByte b, rest)
           else if n < 0xB8 then rlp_content RString (n - 0x80) rest
           else if n < 0xC0 then rlp_long RString (n - 0xB7) rest
           else if n < 0xF8 then rlp_content RList (n - 0xC0) rest
           else rlp_long RList (n - 0xF7) rest))"

definition rlp_uint64 :: "rlp_item \<Rightarrow> rlp_error + uint64" where
  "rlp_uint64 it =
     (case it of
        RByte b \<Rightarrow> if b = 0 then Inl ErrCanonInt else Inr (ucast b)
      | RString s \<Rightarrow>
          if length s > 8 then Inl ErrUintOverflow
          else (case s of
                  [] \<Rightarrow> Inr 0
                | z # _ \<Rightarrow> if z = 0 then Inl ErrCanonInt
                           else if length s = 1 \<and> z < 0x80 then Inl ErrCanonSize
                           else Inr (of_nat (bytes_nat s)))
      | RList _ \<Rightarrow> Inl ErrExpectedString)"

definition rlp_bytes :: "rlp_item \<Rightarrow> rlp_error + bytes" where
  "rlp_bytes it =
     (case it of
        RByte b \<Rightarrow> Inr [b]
      | RString s \<Rightarrow>
          (case s of
             [z] \<Rightarrow> if z < 0x80 then Inl ErrCanonSize else Inr s
           | _ \<Rightarrow> Inr s)
      | RList _ \<Rightarrow> Inl ErrExpectedString)"

lemma rlp_split_shorter:
  "rlp_split input = Inr (it, rest) \<Longrightarrow> length rest < length input"
  by (auto simp: rlp_split_def rlp_content_def rlp_long_def rlp_readUint_def Let_def
      split: list.splits if_splits sum.splits prod.splits)

text \<open>The elements of a list of byte strings, read until the payload is used up.\<close>

function rlp_bytes_list :: "bytes \<Rightarrow> rlp_error + bytes list" where
  "rlp_bytes_list payload =
     (if payload = [] then Inr []
      else (case rlp_split payload of
              Inl e \<Rightarrow> Inl e
            | Inr (it, rest) \<Rightarrow>
                (case rlp_bytes it of
                   Inl e \<Rightarrow> Inl e
                 | Inr b \<Rightarrow>
                     (case rlp_bytes_list rest of
                        Inl e \<Rightarrow> Inl e
                      | Inr bs \<Rightarrow> Inr (b # bs)))))"
  by pat_completeness auto
termination
  by (relation "measure length") (auto dest: rlp_split_shorter)

text \<open>
  One field of the struct is the next item of the list payload; a payload that ends
  early has too few elements.
\<close>

definition rlp_field :: "bytes \<Rightarrow> rlp_error + (rlp_item \<times> bytes)" where
  "rlp_field payload = (if payload = [] then Inl ErrTooFewElements else rlp_split payload)"

definition Pod_DecodeRLP :: "bytes \<Rightarrow> rlp_error + Pod" where
  "Pod_DecodeRLP input =
     (case rlp_split input of
        Inl e \<Rightarrow> Inl e
      | Inr (RList payload, trailing) \<Rightarrow>
          (case rlp_field payload of
             Inl e \<Rightarrow> Inl e
           | Inr (it1, r1) \<Rightarrow>
               (case rlp_uint64 it1 of
                  Inl e \<Rightarrow> Inl e
                | Inr g \<Rightarrow>
                    (case rlp_field r1 of
                       Inl e \<Rightarrow> Inl e
                     | Inr (it2, r2) \<Rightarrow>
                         (case rlp_uint64 it2 of
                            Inl e \<Rightarrow> Inl e
                          | Inr c \<Rightarrow>
                              (case rlp_field r2 of
                                 Inl e \<Rightarrow> Inl e
                               | Inr (RList elems, r3) \<Rightarrow>
                                   (case rlp_bytes_list elems of
                                      Inl e \<Rightarrow> Inl e
                                    | Inr ps \<Rightarrow>
                                        if r3 \<noteq> [] then Inl ErrTooManyElements
                                        else if trailing \<noteq> [] then Inl ErrMoreThanOneValue
                                        else Inr \<lparr>slim_GasLimit = g, slim_CurrentGasLimit = c,
                                                  slim_Passengers = ps\<rparr>)
                               | Inr (_, r3) \<Rightarrow> Inl ErrExpectedList)))))
      | Inr (_, trailing) \<Rightarrow> Inl ErrExpectedList)"

text \<open>
  The functions of \<open>snapshot/pod.go\<close>. In the loop of \<open>SlimPod\<close>,
  \<open>for _, p := range passengers { slim.Passengers = append(slim.Passengers, p[:]) }\<close>,
  the range variable \<open>p\<close> is an array and \<open>p[:]\<close> is a slice of that variable: it refers to
  the variable's storage and copies nothing. The variables are the cells of a store
  (zeroed arrays at first) and a slice is the number of the cell it refers to. Up to
  Go 1.21 the loop has one variable \<open>p\<close>, assigned in every iteration; with a \<open>go\<close>
  directive of 1.22 or later every iteration has a variable of its own. The module file
  is not among the sources, so this is the parameter \<open>per_iteration\<close>. The pod returned
  holds what the slices read once the loop has ended.
\<close>

definition range_var :: "bool \<Rightarrow> nat \<Rightarrow> nat" where
  "range_var per_iteration i = (if per_iteration then i else 0)"

fun SlimPod_range ::
  "bool \<Rightarrow> nat \<Rightarrow> address list \<Rightarrow> (nat \<Rightarrow> address) \<Rightarrow> nat list \<Rightarrow>
   (nat \<Rightarrow> address) \<times> nat list" where
  "SlimPod_range per_iteration i [] vars slices = (vars, slices)"
| "SlimPod_range per_iteration i (a # rest) vars slices =
     SlimPod_range per_iteration (Suc i) rest
       (vars(range_var per_iteration i := a)) (slices @ [range_var per_iteration i])"

definition SlimPod :: "bool \<Rightarrow> uint64 \<Rightarrow> uint64 \<Rightarrow> address list \<Rightarrow> Pod" where
  "SlimPod per_iteration gasLimit currentGasLimit passengers =
     (case SlimPod_range per_iteration 0 passengers (\<lambda>v. replicate AddressLength 0) [] of
        (vars, slices) \<Rightarrow>
          \<lparr>slim_GasLimit = gasLimit, slim_CurrentGasLimit = currentGasLimit,
           slim_Passengers = map vars slices\<rparr>)"

text \<open>\<open>SlimPodRLP\<close> panics on an encoding error, which the encoder never reports.\<close>

definition SlimPodRLP :: "bool \<Rightarrow> uint64 \<Rightarrow> uint64 \<Rightarrow> address list \<Rightarrow> bytes" where
  "SlimPodRLP per_iteration gasLimit currentGasLimit passengers =
     Pod_EncodeRLP (SlimPod per_iteration gasLimit currentGasLimit passengers)"

definition FullPod :: "bytes \<Rightarrow> rlp_error + Pod" where
  "FullPod d = (case Pod_DecodeRLP d of Inl e \<Rightarrow> Inl e | Inr pod \<Rightarrow> Inr pod)"

definition FullPodRLP :: "bytes \<Rightarrow> rlp_error + bytes" where
  "FullPodRLP d = (case FullPod d of Inl e \<Rightarrow> Inl e | Inr pod \<Rightarrow> Inr (Pod_EncodeRLP pod))"

definition FullStatePod :: "bytes \<Rightarrow> rlp_error + StatePod" where
  "FullStatePod d =
     (case FullPod d of
        Inl e \<Rightarrow> Inl e
      | Inr pod \<Rightarrow>
          Inr \<lparr>GasLimit = slim_GasLimit pod, CurrentGasLimit = slim_CurrentGasLimit pod,
               Passengers = map BytesToAddress (slim_Passengers pod)\<rparr>)"

text \<open>
  Decoding into a \<open>StatePod\<close>, as \<open>DumpToCollector\<close> does with a stored value: the same wire
  format, with every passenger decoded into the array type \<open>[20]byte\<close>, which accepts a
  string of exactly 20 bytes.
\<close>

definition StatePod_DecodeRLP :: "bytes \<Rightarrow> rlp_error + StatePod" where
  "StatePod_DecodeRLP input =
     (case Pod_DecodeRLP input of
        Inl e \<Rightarrow> Inl e
      | Inr pod \<Rightarrow>
          if list_all (\<lambda>p. length p = AddressLength) (slim_Passengers pod)
          then Inr \<lparr>GasLimit = slim_GasLimit pod, CurrentGasLimit = slim_CurrentGasLimit pod,
                    Passengers = slim_Passengers pod\<rparr>
          else Inl ErrWrongArrayLength)"

section \<open>State dump (DumpToCollector)\<close>

record DumpConfig =
  SkipCode :: bool
  SkipStorage :: bool
  OnlyWithAddresses :: bool
  Start :: bytes
  Max :: uint64

text \<open>
  Modelled from the spec: \<open>types.StateAccount\<close> is not among the sources; its fields are
  those the dump reads (nonce, balance, storage root, code hash). The fields of the
  dump's own records carry the prefixes \<open>acc\<close> and \<open>pod\<close>. A storage map is the list of
  its key-value pairs.
\<close>

record StateAccount =
  Nonce :: uint64
  Balance :: int
  Root :: hash
  CodeHash :: bytes

record DumpAccount =
  acc_Balance :: string
  acc_Nonce :: uint64
  acc_Root :: bytes
  acc_CodeHash :: bytes
  acc_Code :: bytes
  acc_Storage :: "(hash \<times> string) list"
  acc_Address :: "address option"
  acc_SecureKey :: bytes

record DumpPod =
  pod_GasLimit :: uint64
  pod_CurrentGasLimit :: uint64
  pod_Passengers :: "address list"
  pod_Block :: "int option"
  pod_SecureKey :: bytes

text \<open>
  A collector is an interface; the dump is modelled by the sequence of calls it makes
  on the collector, in order.
\<close>

datatype collector_call =
    OnRoot hash
  | OnAccount address DumpAccount
  | OnPod int DumpPod

text \<open>
  What the dump uses of the trie, the decoder and the account object, none of which is
  among the sources: the root hash, the key-value pairs the iterator yields from a
  start key on (in key order), the key preimage lookup (\<open>None\<close> for a nil result), the
  decoders of a stored account and a stored pod, the code and the storage entries of
  an account, and the decimal text of a balance.
\<close>

record dump_env =
  trie_Hash :: hash
  trie_NodeIterator :: "bytes \<Rightarrow> (bytes \<times> bytes) list"
  trie_GetKey :: "bytes \<Rightarrow> bytes option"
  decodeStateAccount :: "bytes \<Rightarrow> rlp_error + StateAccount"
  decodeStatePod :: "bytes \<Rightarrow> rlp_error + StatePod"
  account_Code :: "address \<Rightarrow> StateAccount \<Rightarrow> bytes"
  account_Storage :: "address \<Rightarrow> StateAccount \<Rightarrow> (hash \<times> string) list"
  big_String :: "int \<Rightarrow> string"

text \<open>The local variables of \<open>DumpToCollector\<close> and the calls made so far.\<close>

record dump_state =
  missingPreimages :: int
  accounts :: uint64
  pods :: uint64
  calls :: "collector_call list"

text \<open>\<open>conf.Max > 0 && accounts >= conf.Max\<close>\<close>

definition max_reached :: "DumpConfig \<Rightarrow> dump_state \<Rightarrow> bool" where
  "max_reached conf st = (0 < Max conf \<and> Max conf \<le> accounts st)"

text \<open>\<open>if it.Next() { nextKey = it.Key }\<close>\<close>

definition next_key :: "(bytes \<times> bytes) list \<Rightarrow> bytes option" where
  "next_key it = (case it of [] \<Rightarrow> None | (k, v) # _ \<Rightarrow> Some k)"

text \<open>
  The loop over the iterator. \<open>value[0]\<close> panics on an empty value, a decoding error is
  turned into a panic, and \<open>addrBytes[1:]\<close> and \<open>blockBytes[1:]\<close> panic on a nil (or empty)
  preimage. The progress log, which depends on the clock and changes no variable, is
  left out.
\<close>

fun dump_loop ::
  "dump_env \<Rightarrow> DumpConfig \<Rightarrow> dump_state \<Rightarrow> (bytes \<times> bytes) list \<Rightarrow>
   error + (bytes option \<times> dump_state)" where
  "dump_loop env conf st [] = Inr (None, st)"
| "dump_loop env conf st ((key, value0) # it) =
     (case value0 of
        [] \<Rightarrow> Inl IndexOutOfRange
      | prefix # val \<Rightarrow>
          (case stateTypeFromPrefix prefix of
             Inl e \<Rightarrow> Inl e
           | Inr stateType \<Rightarrow>
               if stateType = AccountState then
                 (case decodeStateAccount env val of
                    Inl err \<Rightarrow> Inl (DecodeError err)
                  | Inr d \<Rightarrow>
                      (let account = \<lparr>acc_Balance = big_String env (Balance d), acc_Nonce = Nonce d,
                                      acc_Root = Root d, acc_CodeHash = CodeHash d, acc_Code = [],
                                      acc_Storage = [], acc_Address = None, acc_SecureKey = key\<rparr>
                       in case trie_GetKey env key of
                            None \<Rightarrow>
                              if OnlyWithAddresses conf then
                                dump_loop env conf
                                  (st\<lparr>missingPreimages := missingPreimages st + 1\<rparr>) it
                              else Inl SliceBoundsOutOfRange
                          | Some [] \<Rightarrow> Inl SliceBoundsOutOfRange
                          | Some (_ # addrTail) \<Rightarrow>
                              (let addr = BytesToAddress addrTail;
                                   account1 = (if \<not> SkipCode conf
                                               then account\<lparr>acc_Code := account_Code env addr d\<rparr>
                                               else account);
                                   account2 = (if \<not> SkipStorage conf
                                               then account1\<lparr>acc_Storage := account_Storage env addr d\<rparr>
                                               else account1);
                                   st' = st\<lparr>calls := calls st @ [OnAccount addr account2],
                                            accounts := accounts st + 1\<rparr>
                               in if max_reached conf st' then Inr (next_key it, st')
                                  else dump_loop env conf st' it)))
               else if stateType = PodState then
                 (case decodeStatePod env val of
                    Inl err \<Rightarrow> Inl (DecodeError err)
                  | Inr d \<Rightarrow>
                      (let pod = \<lparr>pod_GasLimit = GasLimit d, pod_CurrentGasLimit = CurrentGasLimit d,
                                  pod_Passengers = Passengers d, pod_Block = None,
                                  pod_SecureKey = key\<rparr>
                       in case trie_GetKey env key of
                            None \<Rightarrow> Inl SliceBoundsOutOfRange
                          | Some [] \<Rightarrow> Inl SliceBoundsOutOfRange
                          | Some (_ # blockTail) \<Rightarrow>
                              (let blk = big_SetBytes blockTail;
                                   st' = st\<lparr>calls := calls st @ [OnPod blk pod],
                                            pods := pods st + 1\<rparr>
                               in if max_reached conf st' then Inr (next_key it, st')
                                  else dump_loop env conf st' it)))
               else Inl (Panic ''unknown state type in dump trie'')))"

text \<open>A nil configuration is replaced by the zero configuration.\<close>

definition DumpToCollector ::
  "dump_env \<Rightarrow> DumpConfig option \<Rightarrow> error + (bytes option \<times> dump_state)" where
  "DumpToCollector env conf0 =
     (let conf = (case conf0 of
                    None \<Rightarrow> \<lparr>SkipCode = False, SkipStorage = False, OnlyWithAddresses = False,
                              Start = [], Max = 0\<rparr>
                  | Some c \<Rightarrow> c)
      in dump_loop env conf
           \<lparr>missingPreimages = 0, accounts = 0, pods = 0, calls = [OnRoot (trie_Hash env)]\<rparr>
           (trie_NodeIterator env (Start conf)))"

section \<open>Example values\<close>

text \<open>
  Concrete inputs for the closed instances below: an address, a journal of four
  entries with its dirty counts, a database that logs the entries reverted on it, and
  a sequence of journal operations with the journal it ends in. The identity stands for
  the hash function there.
\<close>

definition w_addr :: address where
  "w_addr = [1, 2, 3, 4, 5, 6, 7, 8, 9, 10, 11, 12, 13, 14, 15, 16, 17, 18, 19, 20]"

definition w_addr2 :: address where
  "w_addr2 = [21, 22, 23, 24, 25, 26, 27, 28, 29, 30, 31, 32, 33, 34, 35, 36, 37, 38, 39, 40]"

definition w_journal :: "unit journal" where
  "w_journal =
     \<lparr>entries = [touchChange (Some w_addr), refundChange 5, balanceChange (Some w_addr) None,
                 nonceChange (Some w_addr) 3],
      spare = [],
      dirties = [accountKey w_addr \<mapsto> 3]\<rparr>"

definition w_log :: "unit journalEntry \<Rightarrow> unit journalEntry list \<Rightarrow> error + unit journalEntry list" where
  "w_log e s = Inr (s @ [e])"

definition w_ops :: "unit journal_op list" where
  "w_ops = [Append (touchChange (Some w_addr)), Dirty (accountKey w_addr),
            Append (balanceChange (Some w_addr) None), Revert 1]"

definition w_after :: "unit journal" where
  "w_after = \<lparr>entries = [touchChange (Some w_addr)],
              spare = [balanceChange (Some w_addr) None],
              dirties = [accountKey w_addr \<mapsto> 2]\<rparr>"

definition w_grow :: "nat \<Rightarrow> nat" where
  "w_grow c = 2 * c"

text \<open>
  A stored pod and a stored account with their values in the trie, an environment over
  given trie entries and preimages (the account decoder yields the example account, the
  pod decoder is the one above), and a configuration with a given \<open>OnlyWithAddresses\<close>
  and \<open>Max\<close>.
\<close>

definition w_pod :: StatePod where
  "w_pod = \<lparr>GasLimit = 1000000, CurrentGasLimit = 0, Passengers = [w_addr]\<rparr>"

definition w_pod_value :: bytes where
  "w_pod_value = Value PodState (StatePod_EncodeRLP w_pod)"

definition w_account :: StateAccount where
  "w_account = \<lparr>Nonce = 1, Balance = 100, Root = [], CodeHash = []\<rparr>"

definition w_account_value :: bytes where
  "w_account_value = Value AccountState [0xC0]"

definition w_env :: "(bytes \<times> bytes) list \<Rightarrow> (bytes \<Rightarrow> bytes option) \<Rightarrow> dump_env" where
  "w_env leaves getKey =
     \<lparr>trie_Hash = [0xAB], trie_NodeIterator = (\<lambda>start. leaves), trie_GetKey = getKey,
      decodeStateAccount = (\<lambda>v. Inr w_account), decodeStatePod = StatePod_DecodeRLP,
      account_Code = (\<lambda>a d. []), account_Storage = (\<lambda>a d. []), big_String = (\<lambda>i. ''100'')\<rparr>"

definition w_conf :: "bool \<Rightarrow> uint64 \<Rightarrow> DumpConfig" where
  "w_conf only m = \<lparr>SkipCode = False, SkipStorage = False, OnlyWithAddresses = only,
                     Start = [], Max = m\<rparr>"

section \<open>Theorems\<close>

subsection \<open>Type from prefix\<close>

text \<open>
  C8. \<open>stateTypeFromPrefix\<close> returns \<open>AccountState\<close> for the byte \<open>'a'\<close> (0x61) and
  \<open>PodState\<close> for \<open>'p'\<close> (0x70); for every other byte it panics with the message
  "unknown state type": the result is never a value and never a recoverable error.
\<close>

theorem stateTypeFromPrefix_total_or_fatal:
  "stateTypeFromPrefix 0x61 = Inr AccountState \<and>
   stateTypeFromPrefix 0x70 = Inr PodState \<and>
   (\<forall>b. b \<noteq> 0x61 \<and> b \<noteq> 0x70 \<longrightarrow> stateTypeFromPrefix b = Inl (Panic ''unknown state type''))"
  by (simp add: stateTypeFromPrefix_def)

theorem stateTypeFromPrefix_total_or_fatal_witness:
  "stateTypeFromPrefix 0x61 = Inr AccountState \<and>
   stateTypeFromPrefix 0x70 = Inr PodState \<and>
   (0x62 :: byte) \<noteq> 0x61 \<and> (0x62 :: byte) \<noteq> 0x70 \<and>
   stateTypeFromPrefix 0x62 = Inl (Panic ''unknown state type'')"
  using stateTypeFromPrefix_total_or_fatal by simp

subsection \<open>Key round trip\<close>

declare nat_bytes.simps [simp del]

lemma nat_bytes_zero: "nat_bytes 0 = []"
  by (simp add: nat_bytes.simps)

lemma nat_bytes_pos: "0 < n \<Longrightarrow> nat_bytes n = nat_bytes (n div 256) @ [of_nat (n mod 256)]"
  using nat_bytes.simps[of n] by simp

lemma nat_bytes_nonempty: "0 < n \<Longrightarrow> nat_bytes n \<noteq> []"
  by (simp add: nat_bytes_pos)

lemma byte_of_nat_nonzero:
  assumes "0 < n" and "n < 256"
  shows "(of_nat n :: byte) \<noteq> 0"
proof
  assume z: "(of_nat n :: byte) = 0"
  have "unat (of_nat n :: byte) = n"
    using assms by (simp add: unat_of_nat)
  with z assms show False by simp
qed

lemma nat_bytes_hd: "0 < n \<Longrightarrow> hd (nat_bytes n) \<noteq> 0"
proof (induction n rule: nat_bytes.induct)
  case (1 n)
  show ?case
  proof (cases "n div 256 = 0")
    case True
    then have lt: "n < 256" by (simp add: div_eq_0_iff)
    have "nat_bytes n = [of_nat n]"
      using 1(2) True lt by (simp add: nat_bytes_pos nat_bytes_zero)
    then show ?thesis
      using byte_of_nat_nonzero[OF 1(2) lt] by simp
  next
    case False
    then have pos: "0 < n div 256" by simp
    have ne: "n \<noteq> 0" using 1(2) by simp
    show ?thesis
      using 1(1)[OF ne pos] nat_bytes_nonempty[OF pos] by (simp add: nat_bytes_pos[OF 1(2)])
  qed
qed

lemma bytes_nat_snoc: "bytes_nat (bs @ [b]) = bytes_nat bs * 256 + unat b"
  by (simp add: bytes_nat_def)

lemma bytes_nat_nat_bytes: "bytes_nat (nat_bytes n) = n"
proof (induction n rule: nat_bytes.induct)
  case (1 n)
  show ?case
  proof (cases "n = 0")
    case True
    then show ?thesis by (simp add: nat_bytes_zero bytes_nat_def)
  next
    case False
    have u: "unat (of_nat (n mod 256) :: byte) = n mod 256"
      by (simp add: unat_of_nat)
    have "bytes_nat (nat_bytes n) = bytes_nat (nat_bytes (n div 256)) * 256 + n mod 256"
      using False by (simp add: nat_bytes_pos bytes_nat_snoc u)
    also have "\<dots> = n div 256 * 256 + n mod 256"
      using 1 False by simp
    finally show ?thesis by simp
  qed
qed

lemma BytesToAddress_id: "is_address a \<Longrightarrow> BytesToAddress a = a"
  by (simp add: is_address_def BytesToAddress_def)

text \<open>
  C6. Key round trip. For every address \<open>a\<close> (a 20-byte array), \<open>accountKey a\<close> is the byte
  \<open>'a'\<close> followed by the address bytes and \<open>keyToAddress\<close> recovers \<open>a\<close> from it. For every
  non-negative block number \<open>b\<close>, \<open>podKey b\<close> is the byte \<open>'p'\<close> followed by the minimal
  big-endian bytes of \<open>b\<close> (they decode back to \<open>b\<close>, are empty for zero and have no leading
  zero byte otherwise) and \<open>keyToBlock\<close> recovers \<open>b\<close> from it.
\<close>

theorem key_round_trip:
  assumes "is_address a" and "0 \<le> b"
  shows "accountKey a = 0x61 # a \<and> keyToAddress (accountKey a) = Inr a \<and>
         podKey (Some b) = Inr (0x70 # big_Bytes b) \<and> keyToBlock (0x70 # big_Bytes b) = Inr b \<and>
         big_SetBytes (big_Bytes b) = b \<and> big_Bytes 0 = [] \<and>
         (if b = 0 then big_Bytes b = [] else hd (big_Bytes b) \<noteq> 0)"
proof -
  have k: "accountKey a = 0x61 # a"
    by (simp add: accountKey_def PreKey_def AccountState_def)
  have r: "keyToAddress (accountKey a) = Inr a"
    using assms(1) by (simp add: k keyToAddress_def BytesToAddress_id)
  have p: "podKey (Some b) = Inr (0x70 # big_Bytes b)"
    by (simp add: podKey_def PreKey_def PodState_def)
  have s: "big_SetBytes (big_Bytes b) = b"
    using assms(2) by (simp add: big_SetBytes_def big_Bytes_def bytes_nat_nat_bytes)
  have q: "keyToBlock (0x70 # big_Bytes b) = Inr b"
    by (simp add: keyToBlock_def s)
  have z: "big_Bytes 0 = []"
    by (simp add: big_Bytes_def nat_bytes_zero)
  have m: "if b = 0 then big_Bytes b = [] else hd (big_Bytes b) \<noteq> 0"
    using assms(2) by (simp add: big_Bytes_def nat_bytes_zero nat_bytes_hd)
  from k r p q s z m show ?thesis by simp
qed

theorem key_round_trip_witness:
  "is_address [1,2,3,4,5,6,7,8,9,10,11,12,13,14,15,16,17,18,19,20] \<and> (0::int) \<le> 258 \<and>
   keyToAddress (accountKey [1,2,3,4,5,6,7,8,9,10,11,12,13,14,15,16,17,18,19,20])
     = Inr [1,2,3,4,5,6,7,8,9,10,11,12,13,14,15,16,17,18,19,20] \<and>
   podKey (Some 258) = Inr (0x70 # big_Bytes 258) \<and>
   keyToBlock (0x70 # big_Bytes 258) = Inr 258 \<and>
   big_Bytes 258 = [1, 2]"
proof -
  have a: "is_address [1,2,3,4,5,6,7,8,9,10,11,12,13,14,15,16,17,18,19,20]"
    by (simp add: is_address_def AddressLength_def)
  have b: "(0::int) \<le> 258" by simp
  have v: "big_Bytes 258 = [1, 2]" by code_simp
  show ?thesis
    using key_round_trip[OF a b] a b v by blast
qed


subsection \<open>Pod objects\<close>

text \<open>
  C3. Pod default gas limit. For every block number \<open>b\<close> and every \<open>StatePod\<close> value \<open>d\<close>,
  \<open>newPodObject\<close> returns an object; its gas limit is 1,000,000 when \<open>d\<close> has gas limit 0 and
  is the gas limit of \<open>d\<close>, unchanged, when that is positive. The other fields of the data
  are those of \<open>d\<close>.
\<close>

theorem newPodObject_default_gas_limit:
  "\<exists>p. newPodObject kec sdb (Some b) d = Inr p \<and>
       (GasLimit d = 0 \<longrightarrow> GasLimit (data p) = 1000000) \<and>
       (0 < GasLimit d \<longrightarrow> GasLimit (data p) = GasLimit d) \<and>
       CurrentGasLimit (data p) = CurrentGasLimit d \<and>
       Passengers (data p) = Passengers d \<and> block p = Some b"
  by (simp add: newPodObject_def podKeyHash_def podKey_def Let_def word_gt_0)

theorem newPodObject_default_gas_limit_witness:
  "map_sum id (\<lambda>p. GasLimit (data p))
     (newPodObject (\<lambda>k. k) () (Some 42) \<lparr>GasLimit = 0, CurrentGasLimit = 0, Passengers = []\<rparr>)
     = Inr 1000000 \<and>
   (0 :: uint64) < 21000 \<and>
   map_sum id (\<lambda>p. GasLimit (data p))
     (newPodObject (\<lambda>k. k) () (Some 42) \<lparr>GasLimit = 21000, CurrentGasLimit = 7, Passengers = []\<rparr>)
     = Inr 21000"
proof -
  have p: "(0 :: uint64) < 21000" by simp
  from newPodObject_default_gas_limit
    [of "\<lambda>k. k" "()" 42 "\<lparr>GasLimit = 0, CurrentGasLimit = 0, Passengers = []\<rparr>"]
  have 1: "map_sum id (\<lambda>p. GasLimit (data p))
     (newPodObject (\<lambda>k. k) () (Some 42) \<lparr>GasLimit = 0, CurrentGasLimit = 0, Passengers = []\<rparr>)
     = Inr 1000000"
    by auto
  from newPodObject_default_gas_limit
    [of "\<lambda>k. k" "()" 42 "\<lparr>GasLimit = 21000, CurrentGasLimit = 7, Passengers = []\<rparr>"] p
  have 2: "map_sum id (\<lambda>p. GasLimit (data p))
     (newPodObject (\<lambda>k. k) () (Some 42) \<lparr>GasLimit = 21000, CurrentGasLimit = 7, Passengers = []\<rparr>)
     = Inr 21000"
    by auto
  from 1 p 2 show ?thesis by blast
qed

text \<open>A nil block pointer makes the constructor panic while it computes the key hash.\<close>

lemma newPodObject_nil_block: "newPodObject kec sdb None d = Inl NilPointerDereference"
  by (simp add: newPodObject_def podKeyHash_def podKey_def Let_def)

text \<open>
  C7. Pod Empty predicate. For every pod object, whatever its other fields, \<open>Empty\<close> is true
  exactly when no block is assigned (the pointer is nil) and the gas limit is zero; for
  every other combination of block and gas limit it is false.
\<close>

theorem pod_Empty_iff:
  "pod_Empty (p\<lparr>block := blk, data := (data p)\<lparr>GasLimit := g\<rparr>\<rparr>) = (blk = None \<and> g = 0)"
  by (simp add: pod_Empty_def)

theorem pod_Empty_iff_witness:
  "pod_Empty \<lparr>block = None, podHash = [], data = \<lparr>GasLimit = 0, CurrentGasLimit = 5, Passengers = []\<rparr>,
      db = (), dbErr = None, executed = True, deleted = False\<rparr> \<and>
   \<not> pod_Empty \<lparr>block = Some 0, podHash = [], data = \<lparr>GasLimit = 0, CurrentGasLimit = 0, Passengers = []\<rparr>,
      db = (), dbErr = None, executed = False, deleted = False\<rparr> \<and>
   \<not> pod_Empty \<lparr>block = None, podHash = [], data = \<lparr>GasLimit = 1, CurrentGasLimit = 0, Passengers = []\<rparr>,
      db = (), dbErr = None, executed = False, deleted = False\<rparr> \<and>
   \<not> pod_Empty \<lparr>block = Some 42, podHash = [], data = \<lparr>GasLimit = 1000000, CurrentGasLimit = 0, Passengers = []\<rparr>,
      db = (), dbErr = None, executed = False, deleted = False\<rparr>"
proof -
  let ?p = "\<lparr>block = None, podHash = [], data = \<lparr>GasLimit = 0, CurrentGasLimit = 0, Passengers = []\<rparr>,
      db = (), dbErr = None, executed = False, deleted = False\<rparr> :: unit podObject"
  let ?q = "\<lparr>block = None, podHash = [], data = \<lparr>GasLimit = 0, CurrentGasLimit = 5, Passengers = []\<rparr>,
      db = (), dbErr = None, executed = True, deleted = False\<rparr> :: unit podObject"
  show ?thesis
    using pod_Empty_iff[where p = ?q and blk = None and g = 0]
      pod_Empty_iff[where p = ?p and blk = "Some 0" and g = 0]
      pod_Empty_iff[where p = ?p and blk = None and g = 1]
      pod_Empty_iff[where p = ?p and blk = "Some 42" and g = 1000000]
    by simp
qed

text \<open>
  C5. Pod DeepCopy. The claim asks for a clone with the source's data. The code returns
  nil for every pod object and every target database: there is no clone.
\<close>

theorem pod_DeepCopy_returns_nil:
  "pod_DeepCopy \<lparr>block = Some 42, podHash = h,
       data = \<lparr>GasLimit = 1000000, CurrentGasLimit = 0, Passengers = [a]\<rparr>,
       db = sdb, dbErr = None, executed = False, deleted = False\<rparr> sdb' = None"
  by (simp add: pod_DeepCopy_def)

subsection \<open>Journal: revert\<close>

declare revert_loop.simps [simp del]

lemma revert_loop_done:
  "i < snapshot \<Longrightarrow> revert_loop kec rv es sdb d i snapshot = Inr (sdb, d)"
  by (simp add: revert_loop.simps)

lemma revert_loop_step:
  "snapshot \<le> i \<Longrightarrow> 0 \<le> i \<Longrightarrow> i < int (length es) \<Longrightarrow>
   revert_loop kec rv es sdb d i snapshot =
     (case entry_revert rv (es ! nat i) sdb of
        Inl e \<Rightarrow> Inl e
      | Inr sdb' \<Rightarrow>
          (case dirtied kec (es ! nat i) of
             Inl e \<Rightarrow> Inl e
           | Inr None \<Rightarrow> revert_loop kec rv es sdb' d (i - 1) snapshot
           | Inr (Some keyHash) \<Rightarrow>
               revert_loop kec rv es sdb' (dirties_decr d keyHash) (i - 1) snapshot))"
  by (subst revert_loop.simps) simp

lemma revert_loop_range:
  "snapshot \<le> i \<Longrightarrow> i < 0 \<or> int (length es) \<le> i \<Longrightarrow>
   revert_loop kec rv es sdb d i snapshot = Inl IndexOutOfRange"
  by (subst revert_loop.simps) simp

lemma revert_loop_take:
  "i < int n \<Longrightarrow>
   revert_loop kec rv (take n es) sdb d i snapshot = revert_loop kec rv es sdb d i snapshot"
proof (induction kec rv es sdb d i snapshot rule: revert_loop.induct)
  case (1 kec rv es sdb d i snapshot)
  show ?case
  proof (cases "snapshot \<le> i")
    case False
    then show ?thesis by (simp add: revert_loop_done)
  next
    case True
    show ?thesis
    proof (cases "i < 0 \<or> int (length es) \<le> i")
      case True
      with \<open>snapshot \<le> i\<close> "1.prems" show ?thesis
        by (auto simp: revert_loop_range)
    next
      case False
      then have r: "0 \<le> i" "i < int (length es)" "i < int (length (take n es))"
        using "1.prems" by auto
      have nth: "take n es ! nat i = es ! nat i"
        using "1.prems" r by simp
      have p: "i - 1 < int n" using "1.prems" by simp
      show ?thesis
        using True False r(1) "1.IH"(1)[OF True False _ _ _ p] "1.IH"(2)[OF True False _ _ _ p]
        by (simp add: revert_loop_step[OF True r(1) r(2)] revert_loop_step[OF True r(1) r(3)] nth
            split: sum.splits option.splits)
    qed
  qed
qed

lemma revert_loop_compose:
  "s1 \<le> s2 \<Longrightarrow> s2 \<le> i + 1 \<Longrightarrow>
   revert_loop kec rv es sdb d i s1 =
     (case revert_loop kec rv es sdb d i s2 of
        Inl e \<Rightarrow> Inl e
      | Inr (sdb', d') \<Rightarrow> revert_loop kec rv es sdb' d' (s2 - 1) s1)"
proof (induction kec rv es sdb d i s2 rule: revert_loop.induct)
  case (1 kec rv es sdb d i s2)
  show ?case
  proof (cases "s2 \<le> i")
    case False
    then have "i = s2 - 1" using "1.prems" by simp
    then show ?thesis by (simp add: revert_loop_done)
  next
    case True
    then have t1: "s1 \<le> i" using "1.prems" by simp
    show ?thesis
    proof (cases "i < 0 \<or> int (length es) \<le> i")
      case True
      with \<open>s2 \<le> i\<close> t1 show ?thesis
        by (simp add: revert_loop_range)
    next
      case False
      then have r: "0 \<le> i" "i < int (length es)" by auto
      have p: "s2 \<le> i - 1 + 1" using True by simp
      show ?thesis
        using "1.IH"(1)[OF True False _ _ _ "1.prems"(1) p] "1.IH"(2)[OF True False _ _ _ "1.prems"(1) p]
        by (simp add: revert_loop_step[OF True r] revert_loop_step[OF t1 r]
            split: sum.splits option.splits)
    qed
  qed
qed

lemma revert_loop_negative:
  "snapshot < 0 \<Longrightarrow> - 1 \<le> i \<Longrightarrow> \<exists>e. revert_loop kec rv es sdb d i snapshot = Inl e"
proof (induction kec rv es sdb d i snapshot rule: revert_loop.induct)
  case (1 kec rv es sdb d i snapshot)
  have t: "snapshot \<le> i" using "1.prems" by simp
  show ?case
  proof (cases "i < 0 \<or> int (length es) \<le> i")
    case True
    with t show ?thesis by (simp add: revert_loop_range)
  next
    case False
    then have r: "0 \<le> i" "i < int (length es)" by auto
    have p: "- 1 \<le> i - 1" using r by simp
    show ?thesis
      using "1.IH"(1)[OF t False _ _ _ "1.prems"(1) p] "1.IH"(2)[OF t False _ _ _ "1.prems"(1) p]
      by (simp add: revert_loop_step[OF t r] split: sum.splits option.splits)
  qed
qed

lemma revert_loop_undo:
  "0 \<le> snapshot \<Longrightarrow> snapshot \<le> i + 1 \<Longrightarrow> i < int (length es) \<Longrightarrow>
   revert_loop kec rv es sdb d i snapshot =
     undo_entries kec rv (rev (drop (nat snapshot) (take (nat (i + 1)) es))) sdb d"
proof (induction kec rv es sdb d i snapshot rule: revert_loop.induct)
  case (1 kec rv es sdb d i snapshot)
  show ?case
  proof (cases "snapshot \<le> i")
    case False
    then have "nat (i + 1) \<le> nat snapshot" using "1.prems" by simp
    then show ?thesis using False by (simp add: revert_loop_done)
  next
    case True
    have r: "0 \<le> i" "i < int (length es)" using True "1.prems" by auto
    then have False': "\<not> (i < 0 \<or> int (length es) \<le> i)" by simp
    have p: "snapshot \<le> i - 1 + 1" "i - 1 < int (length es)" using True r by auto
    have tk: "take (nat (i + 1)) es = take (nat i) es @ [es ! nat i]"
      using r by (simp add: nat_add_distrib take_Suc_conv_app_nth)
    have dr: "rev (drop (nat snapshot) (take (nat (i + 1)) es)) =
              es ! nat i # rev (drop (nat snapshot) (take (nat (i - 1 + 1)) es))"
      using True r "1.prems"(1) by (simp add: tk)
    show ?thesis
      using "1.IH"(1)[OF True False' _ _ _ "1.prems"(1) p] "1.IH"(2)[OF True False' _ _ _ "1.prems"(1) p]
      by (simp add: revert_loop_step[OF True r] dr del: rev.simps
          split: sum.splits option.splits)
  qed
qed

lemma journal_revert_compose:
  assumes "s1 \<le> s2" and "s2 \<le> journal_length j"
  shows "(case journal_revert kec rv sdb j s2 of
            Inl e \<Rightarrow> Inl e
          | Inr (sdb', j') \<Rightarrow> journal_revert kec rv sdb' j' s1)
         = journal_revert kec rv sdb j s1"
proof -
  let ?es = "entries j"
  let ?sp = "spare j"
  let ?n = "int (length ?es)"
  have le: "s2 \<le> ?n - 1 + 1" using assms(2) by (simp add: journal_length_def)
  note comp = revert_loop_compose[OF assms(1) le, of kec rv ?es sdb "dirties j"]
  show ?thesis
  proof (cases "revert_loop kec rv ?es sdb (dirties j) (?n - 1) s2")
    case (Inl e)
    then show ?thesis using comp by (simp add: journal_revert_def)
  next
    case (Inr r)
    obtain sdb' d' where r: "r = (sdb', d')" by (cases r)
    have nonneg: "0 \<le> s2"
    proof (rule ccontr)
      assume "\<not> 0 \<le> s2"
      then have "s2 < 0" by simp
      from revert_loop_negative[OF this, of "?n - 1" kec rv ?es sdb "dirties j"] Inr
      show False by auto
    qed
    have b2: "nat s2 \<le> length ?es"
      using nonneg assms(2) by (simp add: journal_length_def)
    define j2 where "j2 = \<lparr>entries = take (nat s2) ?es, spare = drop (nat s2) ?es @ ?sp,
                           dirties = d'\<rparr>"
    have first: "journal_revert kec rv sdb j s2 = Inr (sdb', j2)"
      using Inr r nonneg b2 by (simp add: journal_revert_def j2_def)
    have sel: "entries j2 = take (nat s2) ?es" "dirties j2 = d'"
      by (simp_all add: j2_def)
    have app: "entries j2 @ spare j2 = ?es @ ?sp"
      by (simp add: j2_def flip: append_assoc)
    have cap: "length (entries j2) + length (spare j2) = length ?es + length ?sp"
      using b2 by (simp add: j2_def)
    have len: "int (length (take (nat s2) ?es)) - 1 = s2 - 1"
      using nonneg b2 by simp
    have lt: "s2 - 1 < int (nat s2)" using nonneg by simp
    have "revert_loop kec rv (entries j2) sdb' (dirties j2) (int (length (entries j2)) - 1) s1
          = revert_loop kec rv ?es sdb' d' (s2 - 1) s1"
      unfolding sel len by (rule revert_loop_take[OF lt])
    also have "\<dots> = revert_loop kec rv ?es sdb (dirties j) (?n - 1) s1"
      using comp Inr r by simp
    finally have loop:
      "revert_loop kec rv (entries j2) sdb' (dirties j2) (int (length (entries j2)) - 1) s1
       = revert_loop kec rv ?es sdb (dirties j) (?n - 1) s1" .
    have "journal_revert kec rv sdb' j2 s1 = journal_revert kec rv sdb j s1"
      unfolding journal_revert_def loop app cap ..
    then show ?thesis
      by (simp add: first)
  qed
qed

lemma entry_revert_non_nil:
  "dirtied kec e = Inr h \<Longrightarrow> entry_revert rv e sdb = rv e sdb"
  by (auto simp: entry_revert_def)

lemma undo_entries_succeeds:
  assumes "\<And>e s. \<exists>s'. rv e s = Inr s'"
    and "\<And>e. e \<in> set xs \<Longrightarrow> \<exists>h. dirtied kec e = Inr h"
  shows "\<exists>r. undo_entries kec rv xs sdb d = Inr r"
  using assms(2)
proof (induction xs arbitrary: sdb d)
  case Nil
  show ?case by simp
next
  case (Cons e xs)
  obtain h where h: "dirtied kec e = Inr h" using Cons.prems by auto
  obtain s' where "rv e sdb = Inr s'" using assms(1) by blast
  then have s': "entry_revert rv e sdb = Inr s'"
    by (simp add: entry_revert_non_nil[OF h])
  have tl: "\<And>e'. e' \<in> set xs \<Longrightarrow> \<exists>h. dirtied kec e' = Inr h"
    using Cons.prems by simp
  show ?case
  proof (cases h)
    case None
    with s' h Cons.IH[OF tl, of s' d] show ?thesis by simp
  next
    case (Some k)
    with s' h Cons.IH[OF tl, of s' "dirties_decr d k"] show ?thesis by simp
  qed
qed

lemma journal_revert_undo:
  assumes "0 \<le> s" and "s \<le> journal_length j"
  shows "journal_revert kec rv sdb j s =
     (case undo_entries kec rv (rev (drop (nat s) (entries j))) sdb (dirties j) of
        Inl e \<Rightarrow> Inl e
      | Inr (sdb', d') \<Rightarrow>
          Inr (sdb', \<lparr>entries = take (nat s) (entries j),
                     spare = drop (nat s) (entries j) @ spare j, dirties = d'\<rparr>))"
proof -
  let ?es = "entries j"
  have b: "s \<le> int (length ?es)" using assms(2) by (simp add: journal_length_def)
  have "revert_loop kec rv ?es sdb (dirties j) (int (length ?es) - 1) s
        = undo_entries kec rv (rev (drop (nat s) ?es)) sdb (dirties j)"
    using revert_loop_undo[OF assms(1), of "int (length ?es) - 1" ?es kec rv sdb "dirties j"] b
    by simp
  then show ?thesis
    using assms(1) b by (simp add: journal_revert_def split: sum.splits prod.splits)
qed

lemma journal_revert_succeeds:
  assumes "0 \<le> s" and "s \<le> journal_length j"
    and "\<And>e s. \<exists>s'. rv e s = Inr s'"
    and "\<And>e. e \<in> set (entries j) \<Longrightarrow> \<exists>h. dirtied kec e = Inr h"
  shows "\<exists>sdb' d'. journal_revert kec rv sdb j s
           = Inr (sdb', \<lparr>entries = take (nat s) (entries j),
                        spare = drop (nat s) (entries j) @ spare j, dirties = d'\<rparr>)"
proof -
  have "\<And>e. e \<in> set (rev (drop (nat s) (entries j))) \<Longrightarrow> \<exists>h. dirtied kec e = Inr h"
    using assms(4) by (auto dest: in_set_dropD)
  from undo_entries_succeeds[of rv "rev (drop (nat s) (entries j))" kec sdb "dirties j", OF assms(3) this]
  obtain r where "undo_entries kec rv (rev (drop (nat s) (entries j))) sdb (dirties j) = Inr r"
    by blast
  then show ?thesis
    by (cases r) (simp add: journal_revert_undo[OF assms(1,2)])
qed

text \<open>
  C1. Journal snapshot composition. For every journal and all checkpoints
  \<open>s1 \<le> s2 \<le> length\<close> (in particular \<open>s1 < s2 < length\<close>), \<open>revert(s2)\<close> followed by
  \<open>revert(s1)\<close> has the outcome of \<open>revert(s1)\<close> alone: the same database, entry sequence
  and dirty-count map, or the same panic. For a checkpoint \<open>0 \<le> s1\<close>, \<open>revert(s1)\<close> undoes
  the entries from index \<open>length - 1\<close> down to \<open>s1\<close> in that order and truncates the
  sequence to its first \<open>s1\<close> entries (the ones cut off stay in the spare slots of the
  array).
\<close>

theorem journal_revert_nested:
  assumes "s1 \<le> s2" and "s2 \<le> journal_length j"
  shows "(case journal_revert kec rv sdb j s2 of
            Inl e \<Rightarrow> Inl e
          | Inr (sdb', j') \<Rightarrow> journal_revert kec rv sdb' j' s1)
         = journal_revert kec rv sdb j s1 \<and>
         (0 \<le> s1 \<longrightarrow>
          journal_revert kec rv sdb j s1 =
            (case undo_entries kec rv (rev (drop (nat s1) (entries j))) sdb (dirties j) of
               Inl e \<Rightarrow> Inl e
             | Inr (sdb', d') \<Rightarrow>
                 Inr (sdb', \<lparr>entries = take (nat s1) (entries j),
                            spare = drop (nat s1) (entries j) @ spare j, dirties = d'\<rparr>)))"
proof -
  have le: "s1 \<le> journal_length j" using assms by simp
  show ?thesis
  proof (intro conjI impI)
    show "(case journal_revert kec rv sdb j s2 of
             Inl e \<Rightarrow> Inl e
           | Inr (sdb', j') \<Rightarrow> journal_revert kec rv sdb' j' s1)
          = journal_revert kec rv sdb j s1"
      by (rule journal_revert_compose[OF assms])
  next
    assume "0 \<le> s1"
    then show "journal_revert kec rv sdb j s1 =
            (case undo_entries kec rv (rev (drop (nat s1) (entries j))) sdb (dirties j) of
               Inl e \<Rightarrow> Inl e
             | Inr (sdb', d') \<Rightarrow>
                 Inr (sdb', \<lparr>entries = take (nat s1) (entries j),
                            spare = drop (nat s1) (entries j) @ spare j, dirties = d'\<rparr>))"
      using le by (rule journal_revert_undo)
  qed
qed

lemma w_journal_revert_1:
  "journal_revert (\<lambda>k. k) w_log [] w_journal 1 =
     Inr ([nonceChange (Some w_addr) 3, balanceChange (Some w_addr) None, refundChange 5],
          \<lparr>entries = [touchChange (Some w_addr)],
           spare = [refundChange 5, balanceChange (Some w_addr) None, nonceChange (Some w_addr) 3],
           dirties = [accountKey w_addr \<mapsto> 1]\<rparr>)"
  by (simp add: journal_revert_def w_journal_def w_log_def revert_loop.simps entry_revert_def
      dirtied_account_def accountKeyHash_def dirties_decr_def map_get_def Let_def)

theorem journal_revert_nested_witness:
  "(1::int) \<le> 3 \<and> 3 \<le> journal_length w_journal \<and>
   (case journal_revert (\<lambda>k. k) w_log [] w_journal 3 of
      Inl e \<Rightarrow> Inl e
    | Inr (sdb', j') \<Rightarrow> journal_revert (\<lambda>k. k) w_log sdb' j' 1)
   = Inr ([nonceChange (Some w_addr) 3, balanceChange (Some w_addr) None, refundChange 5],
          \<lparr>entries = [touchChange (Some w_addr)],
           spare = [refundChange 5, balanceChange (Some w_addr) None, nonceChange (Some w_addr) 3],
           dirties = [accountKey w_addr \<mapsto> 1]\<rparr>)"
proof -
  have a: "(1::int) \<le> 3" by simp
  have b: "3 \<le> journal_length w_journal" by (simp add: journal_length_def w_journal_def)
  from journal_revert_nested[OF a b, of "\<lambda>k. k" w_log "[]"] w_journal_revert_1 a b
  show ?thesis by simp
qed

subsection \<open>Journal: dirty counts\<close>

lemma map_get_count_map: "map_get (count_map M) h = int (count M h)"
  by (simp add: map_get_def count_map_def)

lemma count_map_incr: "dirties_incr (count_map M) h = count_map (add_mset h M)"
proof (rule ext)
  fix x
  show "dirties_incr (count_map M) h x = count_map (add_mset h M) x"
    by (cases "x = h") (simp_all add: dirties_incr_def map_get_count_map, simp_all add: count_map_def count_eq_zero_iff)
qed

lemma count_map_decr:
  assumes "h \<in># M"
  shows "dirties_decr (count_map M) h = count_map (M - {#h#})"
proof (rule ext)
  fix x
  obtain c where c: "count M h = Suc c"
    using assms by (cases "count M h") (simp_all add: count_eq_zero_iff)
  have g: "map_get (count_map M) h = int c + 1"
    by (simp add: map_get_count_map c)
  show "dirties_decr (count_map M) h x = count_map (M - {#h#}) x"
  proof (cases "x = h")
    case True
    then show ?thesis
      by (simp add: dirties_decr_def Let_def g map_get_def, simp add: count_map_def c)
  next
    case False
    then show ?thesis
      by (simp add: dirties_decr_def Let_def g map_get_def, simp add: count_map_def count_eq_zero_iff)
  qed
qed

lemma dirtied_mset_Nil: "dirtied_mset kec [] = {#}"
  by (simp add: dirtied_mset_def dirtied_hashes_def)

lemma dirtied_mset_Cons:
  "dirtied_mset kec (e # es) =
     (case dirtied kec e of Inr (Some h) \<Rightarrow> add_mset h (dirtied_mset kec es) | _ \<Rightarrow> dirtied_mset kec es)"
  by (simp add: dirtied_mset_def dirtied_hashes_def split: sum.splits option.splits)

lemma dirtied_mset_append:
  "dirtied_mset kec (xs @ ys) = dirtied_mset kec xs + dirtied_mset kec ys"
  by (simp add: dirtied_mset_def dirtied_hashes_def)

lemma dirtied_mset_rev: "dirtied_mset kec (rev xs) = dirtied_mset kec xs"
  by (induction xs) (simp_all add: dirtied_mset_append dirtied_mset_Cons dirtied_mset_Nil
      split: sum.splits option.splits)


lemma undo_entries_dirties:
  "undo_entries kec rv xs sdb d = Inr (sdb', d') \<Longrightarrow> d = count_map (dirtied_mset kec xs + M) \<Longrightarrow>
   d' = count_map M"
proof (induction xs arbitrary: sdb d)
  case Nil
  then show ?case by (simp add: dirtied_mset_Nil)
next
  case (Cons e xs)
  from Cons.prems(1) obtain sdb1 where rv: "entry_revert rv e sdb = Inr sdb1"
    by (auto split: sum.splits)
  show ?case
  proof (cases "dirtied kec e")
    case (Inl x)
    with Cons.prems(1) rv show ?thesis by simp
  next
    case (Inr r)
    show ?thesis
    proof (cases r)
      case None
      with Inr rv Cons.prems have "undo_entries kec rv xs sdb1 d = Inr (sdb', d')"
        and "d = count_map (dirtied_mset kec xs + M)"
        by (simp_all add: dirtied_mset_Cons)
      then show ?thesis by (rule Cons.IH)
    next
      case (Some h)
      with Inr rv Cons.prems have u: "undo_entries kec rv xs sdb1 (dirties_decr d h) = Inr (sdb', d')"
        and d: "d = count_map (add_mset h (dirtied_mset kec xs + M))"
        by (simp_all add: dirtied_mset_Cons)
      have "dirties_decr d h = count_map (dirtied_mset kec xs + M)"
        by (simp add: d count_map_decr)
      with u show ?thesis by (rule Cons.IH)
    qed
  qed
qed

lemma journal_append_entries:
  assumes "journal_append kec grow j e = Inr j'"
  shows "entries j' = entries j @ [e]"
  using assms
  by (auto simp: journal_append_def Let_def split: sum.splits option.splits list.splits)

lemma journal_append_dirties:
  assumes "journal_append kec grow j e = Inr j'"
    and "dirties j = count_map (dirtied_mset kec (entries j) + M)"
  shows "dirties j' = count_map (dirtied_mset kec (entries j') + M)"
proof (cases "dirtied kec e")
  case (Inl x)
  with assms(1) show ?thesis by (simp add: journal_append_def Let_def)
next
  case (Inr r)
  have es: "dirtied_mset kec (entries j') =
            dirtied_mset kec (entries j) + dirtied_mset kec [e]"
    by (simp add: journal_append_entries[OF assms(1)] dirtied_mset_append)
  show ?thesis
  proof (cases r)
    case None
    with Inr assms show ?thesis
      by (auto simp: journal_append_def Let_def es dirtied_mset_Cons dirtied_mset_Nil
          split: list.splits)
  next
    case (Some h)
    with Inr assms show ?thesis
      by (auto simp: journal_append_def Let_def es dirtied_mset_Cons dirtied_mset_Nil
          count_map_incr split: list.splits)
  qed
qed

lemma journal_revert_success:
  assumes "journal_revert kec rv sdb j s = Inr (sdb', j')" and "s \<le> journal_length j"
  shows "0 \<le> s \<and> entries j' = take (nat s) (entries j) \<and>
         undo_entries kec rv (rev (drop (nat s) (entries j))) sdb (dirties j) = Inr (sdb', dirties j')"
proof -
  have nonneg: "0 \<le> s"
    using assms(1) by (auto simp: journal_revert_def split: sum.splits prod.splits if_splits)
  from assms(1) show ?thesis
    unfolding journal_revert_undo[OF nonneg assms(2)]
    using nonneg by (auto split: sum.splits prod.splits)
qed

lemma journal_revert_dirties:
  assumes "journal_revert kec rv sdb j s = Inr (sdb', j')" and "s \<le> journal_length j"
    and "dirties j = count_map (dirtied_mset kec (entries j) + M)"
  shows "dirties j' = count_map (dirtied_mset kec (entries j') + M)"
proof -
  note s = journal_revert_success[OF assms(1,2)]
  have "dirtied_mset kec (entries j) =
        dirtied_mset kec (rev (drop (nat s) (entries j))) + dirtied_mset kec (entries j')"
    using s dirtied_mset_append[of kec "take (nat s) (entries j)" "drop (nat s) (entries j)"]
    by (simp add: dirtied_mset_rev)
  then have eq: "dirties j = count_map (dirtied_mset kec (rev (drop (nat s) (entries j)))
      + (dirtied_mset kec (entries j') + M))"
    using assms(3) by (simp add: add.assoc)
  from s have u: "undo_entries kec rv (rev (drop (nat s) (entries j))) sdb (dirties j)
      = Inr (sdb', dirties j')"
    by simp
  show ?thesis
    by (rule undo_entries_dirties[OF u eq])
qed

lemma journal_dirty_dirties:
  assumes "dirties j = count_map (dirtied_mset kec (entries j) + M)"
  shows "dirties (journal_dirty j h) = count_map (dirtied_mset kec (entries (journal_dirty j h)) + add_mset h M)"
  using assms by (simp add: journal_dirty_def count_map_incr)

lemma run_ops_dirties:
  "checkpoints_ok kec rv grow ops (sdb, j) \<Longrightarrow>
   run_ops kec rv grow ops (sdb, j) = Inr (sdb', j') \<Longrightarrow>
   dirties j = count_map (dirtied_mset kec (entries j) + M) \<Longrightarrow>
   dirties j' = count_map (dirtied_mset kec (entries j') + (M + mset (dirty_calls ops)))"
proof (induction ops arbitrary: sdb j M)
  case Nil
  then show ?case by simp
next
  case (Cons x xs)
  from Cons.prems(2) obtain sdb1 j1 where
    step: "run_op kec rv grow x (sdb, j) = Inr (sdb1, j1)"
    and rest: "run_ops kec rv grow xs (sdb1, j1) = Inr (sdb', j')"
    by (cases "run_op kec rv grow x (sdb, j)") auto
  from Cons.prems(1) step have ok: "checkpoint_ok x j"
    and oks: "checkpoints_ok kec rv grow xs (sdb1, j1)"
    by simp_all
  show ?case
  proof (cases x)
    case (Append e)
    with step have "journal_append kec grow j e = Inr j1"
      by (cases "journal_append kec grow j e") simp_all
    from journal_append_dirties[OF this Cons.prems(3)]
    have "dirties j1 = count_map (dirtied_mset kec (entries j1) + M)" .
    from Cons.IH[OF oks rest this] Append show ?thesis by simp
  next
    case (Revert s)
    with step have r: "journal_revert kec rv sdb j s = Inr (sdb1, j1)" by simp
    from ok Revert have le: "s \<le> journal_length j" by (simp add: checkpoint_ok_def)
    from journal_revert_dirties[OF r le Cons.prems(3)]
    have "dirties j1 = count_map (dirtied_mset kec (entries j1) + M)" .
    from Cons.IH[OF oks rest this] Revert show ?thesis by simp
  next
    case (Dirty h)
    with step have j1: "j1 = journal_dirty j h" by simp
    from journal_dirty_dirties[OF Cons.prems(3), of h]
    have "dirties j1 = count_map (dirtied_mset kec (entries j1) + add_mset h M)"
      by (simp add: j1)
    from Cons.IH[OF oks rest this] Dirty show ?thesis by simp
  qed
qed

lemma journal_append_succeeds:
  assumes "dirtied kec e = Inr h"
  shows "\<exists>j'. journal_append kec grow j e = Inr j'"
  using assms by (cases h) (simp_all add: journal_append_def Let_def)

lemma run_ops_appends:
  assumes "dirtied kec e = Inr (Some H)"
  shows "\<exists>j'. run_ops kec rv grow (replicate N (Append e)) (sdb, j) = Inr (sdb, j') \<and>
              entries j' = entries j @ replicate N e"
proof (induction N arbitrary: j)
  case 0
  show ?case by simp
next
  case (Suc N)
  obtain j1 where a: "journal_append kec grow j e = Inr j1"
    using journal_append_succeeds[OF assms] by blast
  have e1: "entries j1 = entries j @ [e]" by (rule journal_append_entries[OF a])
  from Suc[of j1] obtain j' where
    "run_ops kec rv grow (replicate N (Append e)) (sdb, j1) = Inr (sdb, j')"
    and "entries j' = entries j1 @ replicate N e"
    by blast
  then show ?case
    using a e1 by (simp add: replicate_app_Cons_same)
qed

lemma checkpoints_ok_appends:
  "checkpoints_ok kec rv grow (replicate N (Append e)) s"
proof (induction N arbitrary: s)
  case 0
  show ?case by simp
next
  case (Suc N)
  show ?case
    by (cases "run_op kec rv grow (Append e) s") (simp_all add: checkpoint_ok_def Suc)
qed

lemma run_ops_append:
  "run_ops kec rv grow (xs @ ys) s =
     (case run_ops kec rv grow xs s of Inl e \<Rightarrow> Inl e | Inr s' \<Rightarrow> run_ops kec rv grow ys s')"
  by (induction xs arbitrary: s) (simp_all split: sum.splits)

lemma dirty_calls_appends: "dirty_calls (replicate N (Append e)) = []"
  by (induction N) simp_all

lemma dirtied_mset_replicate:
  "dirtied kec e = Inr (Some H) \<Longrightarrow> dirtied_mset kec (replicate N e) = replicate_mset N H"
  by (induction N) (simp_all add: dirtied_mset_Nil dirtied_mset_Cons)

lemma newJournal_dirties:
  "dirties (newJournal :: 'obj journal) = count_map (dirtied_mset kec (entries (newJournal :: 'obj journal)) + {#})"
  by (simp add: newJournal_def dirtied_mset_Nil count_map_def)

lemma count_map_replicate:
  "count_map (replicate_mset N H) H = (if N = 0 then None else Some (int N))"
  by (simp add: count_map_def)

lemma appends_dirties:
  assumes "dirtied kec e = Inr (Some H)"
    and "run_ops kec rv grow (replicate N (Append e)) (sdb, newJournal) = Inr (sdb, jN)"
    and "entries jN = replicate N e"
  shows "dirties jN = count_map (replicate_mset N H)"
  using run_ops_dirties[OF checkpoints_ok_appends assms(2) newJournal_dirties]
  by (simp add: assms(3) dirtied_mset_replicate[OF assms(1)] dirty_calls_appends)

text \<open>
  C2 (amended). Dirty-count invariant. After every sequence of journal operations run
  on a new journal in which every revert is given a checkpoint not above the current
  length, the dirties map is the count map of the multiset of the non-nil \<open>dirtied()\<close>
  results over the current entries plus the hashes passed to \<open>dirty\<close>; without \<open>dirty\<close>
  calls it is the count map of the entries' multiset alone. In particular, \<open>N\<close> appended
  entries with \<open>dirtied() = H\<close> give \<open>dirties[H] = N\<close>, reverting exactly one of \<open>N + 1\<close>
  leaves \<open>N\<close>, and the slot of \<open>H\<close> is absent when the count is zero.
\<close>

theorem dirty_count_invariant:
  "(checkpoints_ok kec rv grow ops (sdb, newJournal) \<and>
    run_ops kec rv grow ops (sdb, newJournal) = Inr (sdb', j) \<longrightarrow>
      dirties j = count_map (dirtied_mset kec (entries j) + mset (dirty_calls ops)) \<and>
      (dirty_calls ops = [] \<longrightarrow> dirties j = count_map (dirtied_mset kec (entries j)))) \<and>
   (dirtied kec e = Inr (Some H) \<longrightarrow>
      (\<exists>jN. run_ops kec rv grow (replicate N (Append e)) (sdb, newJournal) = Inr (sdb, jN) \<and>
            entries jN = replicate N e \<and>
            dirties jN H = (if N = 0 then None else Some (int N)))) \<and>
   (dirtied kec e = Inr (Some H) \<and> rv e sdb = Inr sdb1 \<longrightarrow>
      (\<exists>jR. run_ops kec rv grow (replicate (Suc N) (Append e) @ [Revert (int N)]) (sdb, newJournal)
               = Inr (sdb1, jR) \<and>
            entries jR = replicate N e \<and>
            dirties jR H = (if N = 0 then None else Some (int N))))"
proof (intro conjI impI)
  assume "checkpoints_ok kec rv grow ops (sdb, newJournal) \<and>
    run_ops kec rv grow ops (sdb, newJournal) = Inr (sdb', j)"
  then have c: "checkpoints_ok kec rv grow ops (sdb, newJournal)"
    and r: "run_ops kec rv grow ops (sdb, newJournal) = Inr (sdb', j)"
    by simp_all
  from run_ops_dirties[OF c r newJournal_dirties]
  show g: "dirties j = count_map (dirtied_mset kec (entries j) + mset (dirty_calls ops))"
    by simp
  assume "dirty_calls ops = []"
  with g show "dirties j = count_map (dirtied_mset kec (entries j))" by simp
next
  assume d: "dirtied kec e = Inr (Some H)"
  from run_ops_appends[OF d, of rv grow N sdb newJournal] obtain jN where
    r: "run_ops kec rv grow (replicate N (Append e)) (sdb, newJournal) = Inr (sdb, jN)"
    and es: "entries jN = replicate N e"
    by (auto simp: newJournal_def)
  have "dirties jN = count_map (replicate_mset N H)"
    by (rule appends_dirties[OF d r es])
  then have "dirties jN H = (if N = 0 then None else Some (int N))"
    by (simp add: count_map_replicate)
  with r es show "\<exists>jN. run_ops kec rv grow (replicate N (Append e)) (sdb, newJournal) = Inr (sdb, jN) \<and>
            entries jN = replicate N e \<and>
            dirties jN H = (if N = 0 then None else Some (int N))"
    by blast
next
  assume "dirtied kec e = Inr (Some H) \<and> rv e sdb = Inr sdb1"
  then have d: "dirtied kec e = Inr (Some H)" and v: "rv e sdb = Inr sdb1" by simp_all
  have v': "entry_revert rv e sdb = Inr sdb1"
    using v by (simp add: entry_revert_non_nil[OF d])
  from run_ops_appends[OF d, of rv grow "Suc N" sdb newJournal] obtain jS where
    r: "run_ops kec rv grow (replicate (Suc N) (Append e)) (sdb, newJournal) = Inr (sdb, jS)"
    and es: "entries jS = replicate (Suc N) e"
    by (auto simp: newJournal_def)
  have dS: "dirties jS = count_map (replicate_mset (Suc N) H)"
    by (rule appends_dirties[OF d r es])
  have b: "0 \<le> int N" "int N \<le> journal_length jS"
    by (simp_all add: journal_length_def es)
  have es': "entries jS = replicate N e @ [e]"
    by (simp add: es replicate_append_same)
  have dr: "rev (drop N (entries jS)) = [e]"
    by (simp add: es')
  have tk: "take N (entries jS) = replicate N e"
    by (simp add: es')
  define jR where "jR = \<lparr>entries = replicate N e, spare = drop N (entries jS) @ spare jS,
                          dirties = dirties_decr (dirties jS) H\<rparr>"
  have rvt: "journal_revert kec rv sdb jS (int N) = Inr (sdb1, jR)"
    by (simp add: journal_revert_undo[OF b] dr tk d v' jR_def)
  have all: "run_ops kec rv grow (replicate (Suc N) (Append e) @ [Revert (int N)]) (sdb, newJournal)
      = Inr (sdb1, jR)"
    by (simp only: run_ops_append r) (simp add: rvt)
  have "dirties jR = count_map (replicate_mset (Suc N) H - {#H#})"
    by (simp add: jR_def dS count_map_decr del: replicate_mset_Suc)
  then have "dirties jR H = (if N = 0 then None else Some (int N))"
    by (simp add: count_map_replicate)
  moreover have "entries jR = replicate N e" by (simp add: jR_def)
  ultimately show "\<exists>jR. run_ops kec rv grow (replicate (Suc N) (Append e) @ [Revert (int N)]) (sdb, newJournal)
               = Inr (sdb1, jR) \<and>
            entries jR = replicate N e \<and>
            dirties jR H = (if N = 0 then None else Some (int N))"
    using all by blast
qed

lemma w_ops_run:
  "run_ops (\<lambda>k. k) w_log w_grow w_ops ([], newJournal)
     = Inr ([balanceChange (Some w_addr) None], w_after)"
  by (simp add: w_ops_def w_after_def w_log_def w_grow_def newJournal_def journal_append_def
      journal_dirty_def journal_revert_def revert_loop.simps entry_revert_def dirtied_account_def
      accountKeyHash_def dirties_incr_def dirties_decr_def map_get_def Let_def)

lemma w_ops_checkpoints: "checkpoints_ok (\<lambda>k. k) w_log w_grow w_ops ([], newJournal)"
  by (simp add: w_ops_def w_log_def w_grow_def newJournal_def journal_append_def
      journal_dirty_def journal_revert_def revert_loop.simps entry_revert_def dirtied_account_def
      accountKeyHash_def dirties_incr_def dirties_decr_def map_get_def Let_def
      checkpoint_ok_def journal_length_def)

theorem dirty_count_invariant_witness:
  "checkpoints_ok (\<lambda>k. k) w_log w_grow w_ops ([], newJournal) \<and>
   run_ops (\<lambda>k. k) w_log w_grow w_ops ([], newJournal)
     = Inr ([balanceChange (Some w_addr) None], w_after) \<and>
   dirties w_after = count_map (dirtied_mset (\<lambda>k. k) (entries w_after) + mset (dirty_calls w_ops)) \<and>
   dirties w_after (accountKey w_addr) = Some 2 \<and>
   dirtied (\<lambda>k. k) (touchChange (Some w_addr) :: unit journalEntry) = Inr (Some (accountKey w_addr)) \<and>
   w_log (touchChange (Some w_addr)) [] = Inr [touchChange (Some w_addr)] \<and>
   (\<exists>jN. run_ops (\<lambda>k. k) w_log w_grow (replicate 3 (Append (touchChange (Some w_addr))))
            ([], newJournal) = Inr ([], jN) \<and>
         entries jN = replicate 3 (touchChange (Some w_addr)) \<and>
         dirties jN (accountKey w_addr) = Some 3) \<and>
   (\<exists>jR. run_ops (\<lambda>k. k) w_log w_grow
            (replicate (Suc 2) (Append (touchChange (Some w_addr))) @ [Revert 2]) ([], newJournal)
            = Inr ([touchChange (Some w_addr)], jR) \<and>
         entries jR = replicate 2 (touchChange (Some w_addr)) \<and>
         dirties jR (accountKey w_addr) = Some 2)"
proof -
  have d: "dirtied (\<lambda>k. k) (touchChange (Some w_addr) :: unit journalEntry)
           = Inr (Some (accountKey w_addr))"
    by (simp add: dirtied_account_def accountKeyHash_def)
  have v: "w_log (touchChange (Some w_addr)) [] = Inr [touchChange (Some w_addr)]"
    by (simp add: w_log_def)
  have g: "dirties w_after (accountKey w_addr) = Some 2"
    by (simp add: w_after_def)
  note t3 = dirty_count_invariant[where kec = "\<lambda>k. k" and rv = w_log and grow = w_grow
      and ops = w_ops and sdb = "[]"
      and sdb' = "[balanceChange (Some w_addr) None]" and j = w_after
      and e = "touchChange (Some w_addr)" and H = "accountKey w_addr" and N = 3
      and ?sdb1.0 = "[touchChange (Some w_addr)]"]
  note t2 = dirty_count_invariant[where kec = "\<lambda>k. k" and rv = w_log and grow = w_grow
      and ops = w_ops and sdb = "[]"
      and sdb' = "[balanceChange (Some w_addr) None]" and j = w_after
      and e = "touchChange (Some w_addr)" and H = "accountKey w_addr" and N = 2
      and ?sdb1.0 = "[touchChange (Some w_addr)]"]
  from t3 w_ops_checkpoints w_ops_run have 1:
    "dirties w_after = count_map (dirtied_mset (\<lambda>k. k) (entries w_after) + mset (dirty_calls w_ops))"
    by blast
  from t3 d have 2:
    "\<exists>jN. run_ops (\<lambda>k. k) w_log w_grow (replicate 3 (Append (touchChange (Some w_addr))))
            ([], newJournal) = Inr ([], jN) \<and>
         entries jN = replicate 3 (touchChange (Some w_addr)) \<and>
         dirties jN (accountKey w_addr) = Some 3"
    by simp
  from t2 d v have 3:
    "\<exists>jR. run_ops (\<lambda>k. k) w_log w_grow
            (replicate (Suc 2) (Append (touchChange (Some w_addr))) @ [Revert 2]) ([], newJournal)
            = Inr ([touchChange (Some w_addr)], jR) \<and>
         entries jR = replicate 2 (touchChange (Some w_addr)) \<and>
         dirties jR (accountKey w_addr) = Some 2"
    by simp
  from w_ops_checkpoints w_ops_run 1 g d v 2 3 show ?thesis by blast
qed

text \<open>
  The claim as stated fails in two ways. After \<open>dirty(H)\<close> on a new journal the map holds
  \<open>H \<mapsto> 1\<close> while no entry dirties \<open>H\<close>. And a revert to a checkpoint above the length but
  within the capacity brings an entry back without its count: after \<open>append(e)\<close>,
  \<open>revert(0)\<close>, \<open>revert(1)\<close> the journal holds \<open>e\<close> again and the map is empty.
\<close>

theorem dirty_count_counterexample:
  "run_ops (\<lambda>k. k) w_log w_grow [Dirty (accountKey w_addr)] ([], newJournal :: unit journal)
     = Inr ([], \<lparr>entries = [], spare = [], dirties = [accountKey w_addr \<mapsto> 1]\<rparr>) \<and>
   [accountKey w_addr \<mapsto> (1::int)] (accountKey w_addr) = Some 1 \<and>
   count_map (dirtied_mset (\<lambda>k. k) ([] :: unit journalEntry list)) (accountKey w_addr) = None \<and>
   [accountKey w_addr \<mapsto> 1] \<noteq> count_map (dirtied_mset (\<lambda>k. k) ([] :: unit journalEntry list)) \<and>
   run_ops (\<lambda>k. k) w_log w_grow
     [Append (touchChange (Some w_addr)), Revert 0, Revert 1] ([], newJournal :: unit journal)
     = Inr ([touchChange (Some w_addr)],
            \<lparr>entries = [touchChange (Some w_addr)], spare = [], dirties = Map.empty\<rparr>) \<and>
   count_map (dirtied_mset (\<lambda>k. k) [touchChange (Some w_addr) :: unit journalEntry])
     (accountKey w_addr) = Some 1 \<and>
   Map.empty \<noteq> count_map (dirtied_mset (\<lambda>k. k) [touchChange (Some w_addr) :: unit journalEntry])"
proof -
  have n: "count_map (dirtied_mset (\<lambda>k. k) ([] :: unit journalEntry list)) (accountKey w_addr) = None"
    by (simp add: count_map_def dirtied_mset_Nil)
  have s: "[accountKey w_addr \<mapsto> (1::int)] (accountKey w_addr) = Some 1" by simp
  have ne: "[accountKey w_addr \<mapsto> 1] \<noteq> count_map (dirtied_mset (\<lambda>k. k) ([] :: unit journalEntry list))"
  proof
    assume "[accountKey w_addr \<mapsto> 1] = count_map (dirtied_mset (\<lambda>k. k) ([] :: unit journalEntry list))"
    then have "[accountKey w_addr \<mapsto> (1::int)] (accountKey w_addr)
        = count_map (dirtied_mset (\<lambda>k. k) ([] :: unit journalEntry list)) (accountKey w_addr)"
      by simp
    with n s show False by simp
  qed
  have r: "run_ops (\<lambda>k. k) w_log w_grow [Dirty (accountKey w_addr)] ([], newJournal :: unit journal)
     = Inr ([], \<lparr>entries = [], spare = [], dirties = [accountKey w_addr \<mapsto> 1]\<rparr>)"
    by (simp add: newJournal_def journal_dirty_def dirties_incr_def map_get_def)
  have r2: "run_ops (\<lambda>k. k) w_log w_grow
     [Append (touchChange (Some w_addr)), Revert 0, Revert 1] ([], newJournal :: unit journal)
     = Inr ([touchChange (Some w_addr)],
            \<lparr>entries = [touchChange (Some w_addr)], spare = [], dirties = Map.empty\<rparr>)"
    by (simp add: w_log_def w_grow_def newJournal_def journal_append_def journal_revert_def
        revert_loop.simps entry_revert_def dirtied_account_def accountKeyHash_def
        dirties_incr_def dirties_decr_def map_get_def Let_def)
  have c2: "count_map (dirtied_mset (\<lambda>k. k) [touchChange (Some w_addr) :: unit journalEntry])
     (accountKey w_addr) = Some 1"
    by (simp add: count_map_def dirtied_mset_Cons dirtied_mset_Nil dirtied_account_def
        accountKeyHash_def)
  have ne2: "Map.empty \<noteq> count_map (dirtied_mset (\<lambda>k. k) [touchChange (Some w_addr) :: unit journalEntry])"
  proof
    assume a: "Map.empty = count_map (dirtied_mset (\<lambda>k. k) [touchChange (Some w_addr) :: unit journalEntry])"
    have "count_map (dirtied_mset (\<lambda>k. k) [touchChange (Some w_addr) :: unit journalEntry])
            (accountKey w_addr) = (Map.empty :: hash \<rightharpoonup> int) (accountKey w_addr)"
      unfolding a[symmetric] ..
    with c2 show False by simp
  qed
  from r s n ne r2 c2 ne2 show ?thesis by blast
qed

subsection \<open>RLP round trip\<close>

declare rlp_bytes_list.simps [simp del]

lemma nat_bytes_length: "n < 256 ^ k \<Longrightarrow> length (nat_bytes n) \<le> k"
proof (induction n arbitrary: k rule: nat_bytes.induct)
  case (1 n)
  show ?case
  proof (cases "n = 0")
    case True
    then show ?thesis by (simp add: nat_bytes_zero)
  next
    case False
    then have pos: "0 < n" by simp
    obtain k' where k: "k = Suc k'"
      using "1.prems" pos by (cases k) simp_all
    have "n div 256 < 256 ^ k'"
      using "1.prems" by (simp add: k less_mult_imp_div_less mult.commute)
    from "1.IH"[OF False this] show ?thesis
      by (simp add: nat_bytes_pos[OF pos] k)
  qed
qed

lemma nat_bytes_length_pos: "0 < n \<Longrightarrow> 0 < length (nat_bytes n)"
  by (simp add: nat_bytes_pos)

lemma unat_byte_of_nat: "m < 256 \<Longrightarrow> unat (of_nat m :: byte) = m"
  by (simp add: unat_of_nat)

lemma rlp_split_head:
  assumes "length payload < 2 ^ 64"
    and "(small = 0xC0 \<and> large = 0xF7 \<and> mk = RList) \<or> (small = 0x80 \<and> large = 0xB7 \<and> mk = RString)"
  shows "rlp_split (rlp_head small large (length payload) @ payload @ rest) = Inr (mk payload, rest)"
proof (cases "length payload < 56")
  case True
  have c: "rlp_content mk (length payload) (payload @ rest) = Inr (mk payload, rest)"
    by (simp add: rlp_content_def)
  from assms(2) show ?thesis
  proof
    assume a: "small = 0xC0 \<and> large = 0xF7 \<and> mk = RList"
    have u: "unat (of_nat (0xC0 + length payload) :: byte) = 0xC0 + length payload"
      using True by (intro unat_byte_of_nat) simp
    show ?thesis
      using True a c by (simp add: rlp_head_def rlp_split_def u Let_def del: of_nat_add)
  next
    assume a: "small = 0x80 \<and> large = 0xB7 \<and> mk = RString"
    have u: "unat (of_nat (0x80 + length payload) :: byte) = 0x80 + length payload"
      using True by (intro unat_byte_of_nat) simp
    show ?thesis
      using True a c by (simp add: rlp_head_def rlp_split_def u Let_def del: of_nat_add)
  qed
next
  case False
  let ?n = "length payload"
  let ?s = "nat_bytes ?n"
  have pos: "0 < ?n" using False by linarith
  have "?n < 256 ^ 8" using assms(1) by simp
  then have len8: "length ?s \<le> 8" by (rule nat_bytes_length)
  have len1: "0 < length ?s" using pos by (rule nat_bytes_length_pos)
  then obtain z zs where s: "?s = z # zs" by (cases ?s) simp_all
  have z: "z \<noteq> 0" using nat_bytes_hd[OF pos] s by simp
  have val: "bytes_nat ?s = ?n" by (rule bytes_nat_nat_bytes)
  have r: "rlp_readUint (length ?s) (?s @ payload @ rest) = Inr (?n, payload @ rest)"
    using z val by (simp add: rlp_readUint_def s)
  have c: "rlp_content mk ?n (payload @ rest) = Inr (mk payload, rest)"
    by (simp add: rlp_content_def)
  have l: "rlp_long mk (length ?s) (?s @ payload @ rest) = Inr (mk payload, rest)"
    using False by (simp add: rlp_long_def r c)
  from assms(2) show ?thesis
  proof
    assume a: "small = 0xC0 \<and> large = 0xF7 \<and> mk = RList"
    have u: "unat (of_nat (0xF7 + length ?s) :: byte) = 0xF7 + length ?s"
      using len8 by (intro unat_byte_of_nat) simp
    show ?thesis
      using False a l len1 len8
      by (simp add: rlp_head_def rlp_split_def u Let_def del: of_nat_add)
  next
    assume a: "small = 0x80 \<and> large = 0xB7 \<and> mk = RString"
    have u: "unat (of_nat (0xB7 + length ?s) :: byte) = 0xB7 + length ?s"
      using len8 by (intro unat_byte_of_nat) simp
    show ?thesis
      using False a l len1 len8
      by (simp add: rlp_head_def rlp_split_def u Let_def del: of_nat_add)
  qed
qed

lemma rlp_split_WriteList:
  "length payload < 2 ^ 64 \<Longrightarrow> rlp_split (WriteList payload @ rest) = Inr (RList payload, rest)"
  using rlp_split_head[of payload "0xC0" "0xF7" RList rest] by (simp add: WriteList_def)

lemma WriteList_length:
  assumes "length payload < 2 ^ 64"
  shows "length (WriteList payload) \<le> length payload + 9"
proof -
  have "length payload < 256 ^ 8" using assms by simp
  then have "length (nat_bytes (length payload)) \<le> 8" by (rule nat_bytes_length)
  then show ?thesis
    by (simp add: WriteList_def rlp_head_def Let_def)
qed

lemma unat_uint64_less: "unat (i :: uint64) < 256 ^ 8"
proof -
  have "unat i < 2 ^ LENGTH(64)" by (rule unsigned_less)
  then show ?thesis by simp
qed

lemma WriteUint64_length: "length (WriteUint64 i) \<le> 9"
proof -
  have "length (nat_bytes (unat i)) \<le> 8" by (rule nat_bytes_length) (rule unat_uint64_less)
  then show ?thesis
    by (simp add: WriteUint64_def Let_def)
qed

lemma rlp_uint64_WriteUint64:
  "\<exists>it. rlp_split (WriteUint64 i @ rest) = Inr (it, rest) \<and> rlp_uint64 it = Inr i"
proof (cases "i = 0")
  case True
  then show ?thesis
    by (simp add: WriteUint64_def rlp_split_def rlp_content_def rlp_uint64_def)
next
  case False
  show ?thesis
  proof (cases "i < 128")
    case True
    then have lt: "unat i < 128" by (simp add: word_less_nat_alt)
    have tb: "take_bit 8 (unat i) = unat i"
      by (rule take_bit_nat_eq_self) (use lt in simp)
    have "unat (ucast i :: byte) = take_bit LENGTH(8) (unat i)"
      by (rule unsigned_ucast_eq)
    then have u: "unat (ucast i :: byte) = unat i"
      using tb by simp
    have nz: "(ucast i :: byte) \<noteq> 0"
      using False u by (simp add: word_unat_eq_iff)
    have tb2: "take_bit 64 (unat (ucast i :: byte)) = unat (ucast i :: byte)"
      by (rule take_bit_nat_eq_self) (use lt u in simp)
    have "unat (ucast (ucast i :: byte) :: uint64) = take_bit LENGTH(64) (unat (ucast i :: byte))"
      by (rule unsigned_ucast_eq)
    then have "unat (ucast (ucast i :: byte) :: uint64) = unat i"
      using tb2 u by simp
    then have rt: "(ucast (ucast i :: byte) :: uint64) = i"
      by (simp add: word_unat_eq_iff)
    show ?thesis
      using False True lt nz rt
      by (simp add: WriteUint64_def rlp_split_def rlp_uint64_def u Let_def)
  next
    case ge: False
    let ?s = "nat_bytes (unat i)"
    have pos: "0 < unat i" using False by (simp add: unat_gt_0)
    have big: "128 \<le> unat i" using ge by (simp add: word_less_nat_alt)
    have len8: "length ?s \<le> 8" by (rule nat_bytes_length) (rule unat_uint64_less)
    have len1: "0 < length ?s" using pos by (rule nat_bytes_length_pos)
    then obtain z zs where s: "?s = z # zs" by (cases ?s) simp_all
    have z: "z \<noteq> 0" using nat_bytes_hd[OF pos] s by simp
    have val: "bytes_nat ?s = unat i" by (rule bytes_nat_nat_bytes)
    have single: "\<not> (length ?s = 1 \<and> z < 0x80)"
    proof
      assume a: "length ?s = 1 \<and> z < 0x80"
      then have "?s = [z]" using s by simp
      then have "unat z = unat i" using val by (simp add: bytes_nat_def)
      moreover have "unat z < 128" using a by (simp add: word_less_nat_alt)
      ultimately show False using big by simp
    qed
    have u: "unat (of_nat (0x80 + length ?s) :: byte) = 0x80 + length ?s"
      using len8 by (intro unat_byte_of_nat) simp
    have c: "rlp_content RString (length ?s) (?s @ rest) = Inr (RString ?s, rest)"
      by (simp add: rlp_content_def)
    have sp: "rlp_split (WriteUint64 i @ rest) = Inr (RString ?s, rest)"
      using False ge len1 len8 c
      by (simp add: WriteUint64_def rlp_split_def u Let_def del: of_nat_add)
    have "rlp_uint64 (RString ?s) = Inr (of_nat (bytes_nat ?s))"
      using len8 z single by (simp add: rlp_uint64_def s)
    then have "rlp_uint64 (RString ?s) = Inr i" by (simp add: val)
    with sp show ?thesis by blast
  qed
qed

lemma WriteBytes_address:
  assumes "is_address a"
  shows "WriteBytes a = 0x94 # a"
proof -
  have len: "length a = 20" using assms by (simp add: is_address_def AddressLength_def)
  then obtain x y zs where "a = x # y # zs"
    by (cases a; cases "tl a") auto
  then show ?thesis
    using len by (simp add: WriteBytes_def rlp_head_def)
qed

lemma rlp_split_address:
  assumes "is_address a"
  shows "rlp_split (WriteBytes a @ rest) = Inr (RString a, rest)"
proof -
  have len: "length a = 20" using assms by (simp add: is_address_def AddressLength_def)
  show ?thesis
    by (simp add: WriteBytes_address[OF assms] rlp_split_def rlp_content_def len)
qed

lemma rlp_bytes_address:
  assumes "is_address a"
  shows "rlp_bytes (RString a) = Inr a"
proof -
  have len: "length a = 20" using assms by (simp add: is_address_def AddressLength_def)
  then show ?thesis
    by (auto simp: rlp_bytes_def split: list.splits)
qed

lemma rlp_bytes_list_addresses:
  "\<forall>a \<in> set ps. is_address a \<Longrightarrow> rlp_bytes_list (concat (map WriteBytes ps)) = Inr ps"
proof (induction ps)
  case Nil
  show ?case by (simp add: rlp_bytes_list.simps)
next
  case (Cons a ps)
  then have a: "is_address a" and rest: "rlp_bytes_list (concat (map WriteBytes ps)) = Inr ps"
    by simp_all
  have ne: "concat (map WriteBytes (a # ps)) \<noteq> []"
    by (simp add: WriteBytes_address[OF a])
  have sp: "rlp_split (concat (map WriteBytes (a # ps))) = Inr (RString a, concat (map WriteBytes ps))"
    using rlp_split_address[OF a, of "concat (map WriteBytes ps)"] by simp
  show ?case
    by (subst rlp_bytes_list.simps)
      (simp only: ne if_False sp sum.case prod.case rlp_bytes_address[OF a] rest)
qed

lemma addresses_length:
  "\<forall>a \<in> set ps. is_address a \<Longrightarrow> length (concat (map WriteBytes ps)) = 21 * length ps"
  by (induction ps) (simp_all add: WriteBytes_address is_address_def AddressLength_def)

lemma BytesToAddress_addresses:
  "\<forall>a \<in> set ps. is_address a \<Longrightarrow> map BytesToAddress ps = ps"
  by (induction ps) (simp_all add: BytesToAddress_id)

lemma Pod_round_trip:
  assumes "\<forall>a \<in> set ps. is_address a" and "length ps < 2 ^ 59"
  shows "Pod_DecodeRLP (Pod_EncodeRLP \<lparr>slim_GasLimit = g, slim_CurrentGasLimit = c, slim_Passengers = ps\<rparr>)
         = Inr \<lparr>slim_GasLimit = g, slim_CurrentGasLimit = c, slim_Passengers = ps\<rparr>"
proof -
  let ?elems = "concat (map WriteBytes ps)"
  let ?inner = "WriteList ?elems"
  let ?payload = "WriteUint64 g @ WriteUint64 c @ ?inner"
  have el: "length ?elems = 21 * length ps" by (rule addresses_length[OF assms(1)])
  have b59: "21 * length ps + 27 < (2::nat) ^ 64"
  proof -
    have "21 * length ps + 27 < 32 * (2::nat) ^ 59" using assms(2) by simp
    then show ?thesis by simp
  qed
  have elb: "length ?elems < 2 ^ 64" using el b59 by simp
  have il: "length ?inner \<le> 21 * length ps + 9"
    using WriteList_length[OF elb] el by simp
  have pl: "length ?payload < 2 ^ 64"
    using il WriteUint64_length[of g] WriteUint64_length[of c] b59 by simp
  obtain it1 where s1: "rlp_split (WriteUint64 g @ (WriteUint64 c @ ?inner)) = Inr (it1, WriteUint64 c @ ?inner)"
    and u1: "rlp_uint64 it1 = Inr g"
    using rlp_uint64_WriteUint64[of g "WriteUint64 c @ ?inner"] by blast
  obtain it2 where s2: "rlp_split (WriteUint64 c @ ?inner) = Inr (it2, ?inner)"
    and u2: "rlp_uint64 it2 = Inr c"
    using rlp_uint64_WriteUint64[of c ?inner] by blast
  have s3: "rlp_split ?inner = Inr (RList ?elems, [])"
    using rlp_split_WriteList[OF elb, of "[]"] by simp
  have s0: "rlp_split (WriteList ?payload) = Inr (RList ?payload, [])"
    using rlp_split_WriteList[OF pl, of "[]"] by simp
  have n1: "WriteUint64 g @ WriteUint64 c @ ?inner \<noteq> []"
    by (simp add: WriteUint64_def Let_def)
  have n2: "WriteUint64 c @ ?inner \<noteq> []"
    by (simp add: WriteUint64_def Let_def)
  have n3: "?inner \<noteq> []"
    by (simp add: WriteList_def rlp_head_def Let_def)
  have f1: "rlp_field ?payload = Inr (it1, WriteUint64 c @ ?inner)"
    using n1 s1 by (simp add: rlp_field_def)
  have f2: "rlp_field (WriteUint64 c @ ?inner) = Inr (it2, ?inner)"
    using n2 s2 by (simp only: rlp_field_def if_False)
  have f3: "rlp_field ?inner = Inr (RList ?elems, [])"
    using n3 s3 by (simp only: rlp_field_def if_False)
  show ?thesis
    by (simp only: Pod_DecodeRLP_def Pod_EncodeRLP_def Pod.simps s0 sum.case prod.case rlp_item.case
        f1 u1 f2 u2 f3 rlp_bytes_list_addresses[OF assms(1)] if_False simp_thms)
qed

lemma SlimPod_range_per_iteration:
  "\<forall>r \<in> set slices. r < i \<Longrightarrow>
   map (fst (SlimPod_range True i ps vars slices)) (snd (SlimPod_range True i ps vars slices))
     = map vars slices @ ps"
proof (induction ps arbitrary: i vars slices)
  case Nil
  show ?case by simp
next
  case (Cons a ps)
  let ?R = "SlimPod_range True (Suc i) ps (vars(i := a)) (slices @ [i])"
  have b: "\<forall>r \<in> set (slices @ [i]). r < Suc i"
    using Cons.prems by auto
  have m: "map (vars(i := a)) slices = map vars slices"
    using Cons.prems by (intro map_cong) auto
  have s: "SlimPod_range True i (a # ps) vars slices = ?R"
    by (simp add: range_var_def)
  have "map (fst ?R) (snd ?R) = map (vars(i := a)) (slices @ [i]) @ ps"
    by (rule Cons.IH[OF b])
  also have "\<dots> = map vars slices @ a # ps"
    using m by simp
  finally show ?case
    unfolding s .
qed

lemma map_all_zero:
  "\<forall>r \<in> set slices. r = (0::nat) \<Longrightarrow> map vars slices = replicate (length slices) (vars 0)"
  by (induction slices) simp_all

lemma SlimPod_range_shared:
  "\<forall>r \<in> set slices. r = 0 \<Longrightarrow>
   map (fst (SlimPod_range False i ps vars slices)) (snd (SlimPod_range False i ps vars slices))
     = replicate (length slices + length ps) (if ps = [] then vars 0 else last ps)"
proof (induction ps arbitrary: i vars slices)
  case Nil
  show ?case
    using map_all_zero[OF Nil] by simp
next
  case (Cons a ps)
  let ?R = "SlimPod_range False (Suc i) ps (vars(0 := a)) (slices @ [0])"
  have b: "\<forall>r \<in> set (slices @ [0]). r = 0"
    using Cons.prems by auto
  have s: "SlimPod_range False i (a # ps) vars slices = ?R"
    by (simp add: range_var_def)
  have "map (fst ?R) (snd ?R)
        = replicate (length (slices @ [0]) + length ps)
            (if ps = [] then (vars(0 := a)) 0 else last ps)"
    by (rule Cons.IH[OF b])
  also have "\<dots> = replicate (length slices + length (a # ps))
                      (if a # ps = [] then vars 0 else last (a # ps))"
    by simp
  finally show ?case
    unfolding s .
qed

lemma SlimPod_per_iteration:
  "SlimPod True g c ps = \<lparr>slim_GasLimit = g, slim_CurrentGasLimit = c, slim_Passengers = ps\<rparr>"
  using SlimPod_range_per_iteration[of "[]" 0 ps "\<lambda>v. replicate AddressLength 0"]
  by (simp add: SlimPod_def case_prod_beta)

lemma SlimPod_shared:
  "SlimPod False g c ps =
     \<lparr>slim_GasLimit = g, slim_CurrentGasLimit = c,
      slim_Passengers = replicate (length ps) (last ps)\<rparr>"
proof (cases "ps = []")
  case True
  then show ?thesis by (simp add: SlimPod_def)
next
  case False
  then show ?thesis
    using SlimPod_range_shared[of "[]" 0 ps "\<lambda>v. replicate AddressLength 0"]
    by (simp add: SlimPod_def case_prod_beta)
qed

text \<open>
  With a range variable per iteration the round trip holds: for every gas limit,
  current gas limit and list of addresses (20-byte arrays; fewer than \<open>2^59\<close> of them, so
  that the sizes of the encoding fit 64 bits), \<open>FullStatePod\<close> decodes the bytes of
  \<open>SlimPodRLP\<close> without error into the \<open>StatePod\<close> with the same gas limits and the same
  passengers in the same order.
\<close>

lemma SlimPodRLP_round_trip_per_iteration:
  assumes "\<forall>a \<in> set passengers. is_address a" and "length passengers < 2 ^ 59"
  shows "FullStatePod (SlimPodRLP True gasLimit currentGasLimit passengers)
         = Inr \<lparr>GasLimit = gasLimit, CurrentGasLimit = currentGasLimit, Passengers = passengers\<rparr>"
  using BytesToAddress_addresses[OF assms(1)]
  by (simp add: FullStatePod_def FullPod_def SlimPodRLP_def SlimPod_per_iteration
      Pod_round_trip[OF assms])

text \<open>
  With the one range variable of Go up to 1.21 every slice refers to it, and the pod
  that is encoded holds the last passenger in every place.
\<close>

lemma SlimPodRLP_shared_variable:
  assumes "\<forall>a \<in> set passengers. is_address a" and "length passengers < 2 ^ 59"
  shows "FullStatePod (SlimPodRLP False gasLimit currentGasLimit passengers)
         = Inr \<lparr>GasLimit = gasLimit, CurrentGasLimit = currentGasLimit,
                Passengers = replicate (length passengers) (last passengers)\<rparr>"
proof -
  let ?ps = "replicate (length passengers) (last passengers)"
  have a: "\<forall>a \<in> set ?ps. is_address a"
    using assms(1) by (cases "passengers = []") simp_all
  have l: "length ?ps < 2 ^ 59" using assms(2) by simp
  show ?thesis
    using BytesToAddress_addresses[OF a]
    by (simp only: FullStatePod_def FullPod_def SlimPodRLP_def SlimPod_shared
        Pod_round_trip[OF a l] sum.case Pod.simps)
qed

text \<open>
  C10. Slim-pod round trip. The claim asks that \<open>FullStatePod\<close> of the bytes of
  \<open>SlimPodRLP\<close> has the same passengers in the same order. With the one range variable
  of Go up to 1.21, two different passengers come back as the second one twice.
\<close>

theorem SlimPodRLP_repeats_last_passenger:
  "FullStatePod (SlimPodRLP False 1000000 7 [w_addr, w_addr2])
     = Inr \<lparr>GasLimit = 1000000, CurrentGasLimit = 7, Passengers = [w_addr2, w_addr2]\<rparr> \<and>
   w_addr \<noteq> w_addr2"
proof -
  have a: "\<forall>a \<in> set [w_addr, w_addr2]. is_address a"
    by (simp add: is_address_def AddressLength_def w_addr_def w_addr2_def)
  have l: "length [w_addr, w_addr2] < 2 ^ 59" by simp
  have "FullStatePod (SlimPodRLP False 1000000 7 [w_addr, w_addr2])
     = Inr \<lparr>GasLimit = 1000000, CurrentGasLimit = 7,
            Passengers = replicate (length [w_addr, w_addr2]) (last [w_addr, w_addr2])\<rparr>"
    by (rule SlimPodRLP_shared_variable[OF a l])
  moreover have "w_addr \<noteq> w_addr2"
    by (simp add: w_addr_def w_addr2_def)
  ultimately show ?thesis
    by (simp add: numeral_2_eq_2)
qed

subsection \<open>State dump\<close>

lemma StatePod_round_trip:
  assumes "\<forall>a \<in> set (Passengers sp). is_address a" and "length (Passengers sp) < 2 ^ 59"
  shows "StatePod_DecodeRLP (StatePod_EncodeRLP sp) = Inr sp"
proof -
  let ?p = "\<lparr>slim_GasLimit = GasLimit sp, slim_CurrentGasLimit = CurrentGasLimit sp,
             slim_Passengers = Passengers sp\<rparr>"
  have e: "StatePod_EncodeRLP sp = Pod_EncodeRLP ?p"
    by (simp add: StatePod_EncodeRLP_def Pod_EncodeRLP_def)
  have l: "list_all (\<lambda>p. length p = AddressLength) (Passengers sp)"
    using assms(1) by (simp add: list_all_iff is_address_def)
  show ?thesis
    using l by (simp add: StatePod_DecodeRLP_def e Pod_round_trip[OF assms])
qed

lemma w_pod_decode: "StatePod_DecodeRLP (StatePod_EncodeRLP w_pod) = Inr w_pod"
  by (rule StatePod_round_trip) (simp_all add: w_pod_def w_addr_def is_address_def AddressLength_def)

lemma dump_loop_pod:
  "dump_loop env conf st ((key, 0x70 # val) # it) =
     (case decodeStatePod env val of
        Inl err \<Rightarrow> Inl (DecodeError err)
      | Inr d \<Rightarrow>
          (case trie_GetKey env key of
             None \<Rightarrow> Inl SliceBoundsOutOfRange
           | Some [] \<Rightarrow> Inl SliceBoundsOutOfRange
           | Some (_ # blockTail) \<Rightarrow>
               (let st' = st\<lparr>calls := calls st @
                             [OnPod (big_SetBytes blockTail)
                                \<lparr>pod_GasLimit = GasLimit d, pod_CurrentGasLimit = CurrentGasLimit d,
                                 pod_Passengers = Passengers d, pod_Block = None,
                                 pod_SecureKey = key\<rparr>],
                           pods := pods st + 1\<rparr>
                in if max_reached conf st' then Inr (next_key it, st')
                   else dump_loop env conf st' it)))"
  by (simp add: stateTypeFromPrefix_def AccountState_def PodState_def Let_def
      split: sum.splits option.splits list.splits)

lemma dump_loop_account:
  "dump_loop env conf st ((key, 0x61 # val) # it) =
     (case decodeStateAccount env val of
        Inl err \<Rightarrow> Inl (DecodeError err)
      | Inr d \<Rightarrow>
          (case trie_GetKey env key of
             None \<Rightarrow>
               if OnlyWithAddresses conf
               then dump_loop env conf (st\<lparr>missingPreimages := missingPreimages st + 1\<rparr>) it
               else Inl SliceBoundsOutOfRange
           | Some [] \<Rightarrow> Inl SliceBoundsOutOfRange
           | Some (_ # addrTail) \<Rightarrow>
               (let addr = BytesToAddress addrTail;
                    st' = st\<lparr>calls := calls st @
                             [OnAccount addr
                                \<lparr>acc_Balance = big_String env (Balance d), acc_Nonce = Nonce d,
                                 acc_Root = Root d, acc_CodeHash = CodeHash d,
                                 acc_Code = (if SkipCode conf then [] else account_Code env addr d),
                                 acc_Storage =
                                   (if SkipStorage conf then [] else account_Storage env addr d),
                                 acc_Address = None, acc_SecureKey = key\<rparr>],
                           accounts := accounts st + 1\<rparr>
                in if max_reached conf st' then Inr (next_key it, st')
                   else dump_loop env conf st' it)))"
  by (simp add: stateTypeFromPrefix_def AccountState_def Let_def
      split: sum.splits option.splits list.splits)

declare dump_loop.simps(2) [simp del]

lemma w_env_simps [simp]:
  "trie_Hash (w_env leaves getKey) = [0xAB]"
  "trie_NodeIterator (w_env leaves getKey) start = leaves"
  "trie_GetKey (w_env leaves getKey) = getKey"
  "decodeStateAccount (w_env leaves getKey) v = Inr w_account"
  "decodeStatePod (w_env leaves getKey) = StatePod_DecodeRLP"
  "account_Code (w_env leaves getKey) a d = []"
  "account_Storage (w_env leaves getKey) a d = []"
  "big_String (w_env leaves getKey) i = ''100''"
  by (simp_all add: w_env_def)

lemma w_pod_value_eq: "w_pod_value = 0x70 # StatePod_EncodeRLP w_pod"
  by (simp add: w_pod_value_def Value_def PodState_def)

lemma w_account_value_eq: "w_account_value = 0x61 # [0xC0]"
  by (simp add: w_account_value_def Value_def AccountState_def)

lemma dump_missing_pod_preimage:
  assumes "decodeStatePod env val = Inr d" and "trie_GetKey env key = None"
  shows "dump_loop env conf st ((key, 0x70 # val) # it) = Inl SliceBoundsOutOfRange"
  by (simp add: dump_loop_pod assms)

lemma dump_missing_account_preimage:
  assumes "decodeStateAccount env val = Inr d" and "trie_GetKey env key = None"
  shows "dump_loop env conf st ((key, 0x61 # val) # it) =
     (if OnlyWithAddresses conf
      then dump_loop env conf (st\<lparr>missingPreimages := missingPreimages st + 1\<rparr>) it
      else Inl SliceBoundsOutOfRange)"
  by (simp add: dump_loop_account assms)

text \<open>With \<open>Max = 0\<close> a dump that returns has no continuation key.\<close>

lemma max_reached_zero: "Max conf = 0 \<Longrightarrow> \<not> max_reached conf st"
  by (simp add: max_reached_def)

lemma dump_loop_no_max:
  "Max conf = 0 \<Longrightarrow> dump_loop env conf st it = Inr (k, st') \<Longrightarrow> k = None"
proof (induction it arbitrary: st)
  case Nil
  then show ?case by simp
next
  case (Cons x it)
  obtain key value0 where x: "x = (key, value0)" by (cases x)
  note m = max_reached_zero[OF Cons.prems(1)]
  from Cons.prems(2) show ?case
    unfolding x
    by (auto simp: dump_loop.simps(2) Let_def m
        split: list.splits sum.splits if_splits option.splits
        dest: Cons.IH[OF Cons.prems(1)])
qed

text \<open>
  C4. Missing preimage in the export. The claim asks that the dump does not fail when
  \<open>GetKey\<close> returns nil. The code counts the missing preimage and then slices the nil
  result: a pod entry panics under every configuration, an account entry panics unless
  \<open>OnlyWithAddresses\<close> is set (then it is counted and skipped, as claimed). Evaluated on
  a trie with one entry and no preimages.
\<close>

theorem DumpToCollector_missing_preimage_panics:
  "DumpToCollector (w_env [([1], w_pod_value)] (\<lambda>k. None)) None = Inl SliceBoundsOutOfRange \<and>
   DumpToCollector (w_env [([1], w_pod_value)] (\<lambda>k. None)) (Some (w_conf True 0))
     = Inl SliceBoundsOutOfRange \<and>
   DumpToCollector (w_env [([1], w_account_value)] (\<lambda>k. None)) None = Inl SliceBoundsOutOfRange \<and>
   DumpToCollector (w_env [([1], w_account_value)] (\<lambda>k. None)) (Some (w_conf True 0))
     = Inr (None, \<lparr>missingPreimages = 1, accounts = 0, pods = 0, calls = [OnRoot [0xAB]]\<rparr>)"
  by (simp add: DumpToCollector_def w_pod_value_eq w_account_value_eq dump_loop_pod
      dump_loop_account w_pod_decode w_conf_def Let_def)

text \<open>
  C9. Dump pagination. The claim asks that the dump stops after \<open>Max\<close> emitted items. The
  code compares \<open>Max\<close> with the number of accounts only: over two pod entries with
  \<open>Max = 1\<close> both pods are emitted and no continuation key is returned, while over two
  account entries the dump stops after the first and returns the key of the second.
\<close>

theorem DumpToCollector_max_ignores_pods:
  "DumpToCollector (w_env [([1], w_pod_value), ([2], w_pod_value)] (\<lambda>k. Some (0x70 # k)))
     (Some (w_conf False 1))
   = Inr (None,
          \<lparr>missingPreimages = 0, accounts = 0, pods = 2,
           calls = [OnRoot [0xAB],
                    OnPod 1 \<lparr>pod_GasLimit = 1000000, pod_CurrentGasLimit = 0,
                             pod_Passengers = [w_addr], pod_Block = None, pod_SecureKey = [1]\<rparr>,
                    OnPod 2 \<lparr>pod_GasLimit = 1000000, pod_CurrentGasLimit = 0,
                             pod_Passengers = [w_addr], pod_Block = None, pod_SecureKey = [2]\<rparr>]\<rparr>) \<and>
   DumpToCollector (w_env [([1], w_account_value), ([2], w_account_value)] (\<lambda>k. Some (0x61 # w_addr)))
     (Some (w_conf False 1))
   = Inr (Some [2],
          \<lparr>missingPreimages = 0, accounts = 1, pods = 0,
           calls = [OnRoot [0xAB],
                    OnAccount w_addr
                      \<lparr>acc_Balance = ''100'', acc_Nonce = 1, acc_Root = [], acc_CodeHash = [],
                       acc_Code = [], acc_Storage = [], acc_Address = None,
                       acc_SecureKey = [1]\<rparr>]\<rparr>)"
proof -
  have b: "big_SetBytes [1] = 1" "big_SetBytes [2] = 2"
    by (simp_all add: big_SetBytes_def bytes_nat_def)
  have ad: "BytesToAddress w_addr = w_addr"
    by (rule BytesToAddress_id) (simp add: is_address_def AddressLength_def w_addr_def)
  have g: "GasLimit w_pod = 1000000" "CurrentGasLimit w_pod = 0" "Passengers w_pod = [w_addr]"
    by (simp_all add: w_pod_def)
  have h: "Nonce w_account = 1" "Root w_account = []" "CodeHash w_account = []"
    by (simp_all add: w_account_def)
  show ?thesis
    by (simp add: DumpToCollector_def w_pod_value_eq w_account_value_eq dump_loop_pod
        dump_loop_account w_pod_decode b ad g h w_conf_def max_reached_def next_key_def Let_def)
qed

end
